theory Spec2Isabelle
  imports
    Main
    "HOL-Library.Sublist"
    "HOL-Library.Multiset"
    "HOL-Library.Char_ord"
    "HOL-Library.List_Lexorder"
begin

section \<open>Python strings\<close>

text \<open>
  A Python \<open>str\<close> is modelled as a \<^typ>\<open>string\<close>: one \<^typ>\<open>char\<close> per code point, for
  text whose code points are below 256.  Lists of characters are ordered
  lexicographically by code point, as Python compares strings.
\<close>

text \<open>\<open>str.isspace\<close> on one character, for the code points below 256.\<close>

definition is_space :: "char \<Rightarrow> bool" where
  "is_space c =
     (let n = (of_char c :: nat)
      in (9 \<le> n \<and> n \<le> 13) \<or> (28 \<le> n \<and> n \<le> 32) \<or> n = 133 \<or> n = 160)"

text \<open>\<open>s.strip()\<close>: leading and trailing whitespace removed.\<close>

definition strip :: "string \<Rightarrow> string" where
  "strip s = rev (dropWhile is_space (rev (dropWhile is_space s)))"

text \<open>
  \<open>s.replace(old, new)\<close>: every non-overlapping occurrence of \<open>old\<close>, found from the
  left, is replaced.  For the empty \<open>old\<close> Python puts \<open>new\<close> before every character
  and at the end.
\<close>

function replace_str :: "string \<Rightarrow> string \<Rightarrow> string \<Rightarrow> string" where
  "replace_str old new s =
     (if old = [] then new @ concat (map (\<lambda>c. c # new) s)
      else if s = [] then []
      else if prefix old s then new @ replace_str old new (drop (length old) s)
      else hd s # replace_str old new (tl s))"
  by pat_completeness auto
termination
  by (relation "measure (\<lambda>(old, new, s). length s)") auto

declare replace_str.simps [simp del]

text \<open>\<open>s.split(sep)\<close> for a separator of one character.\<close>

fun split_on :: "char \<Rightarrow> string \<Rightarrow> string list" where
  "split_on sep [] = [[]]"
| "split_on sep (c # cs) =
     (if c = sep then [] # split_on sep cs
      else (case split_on sep cs of
              [] \<Rightarrow> [[c]]
            | p # ps \<Rightarrow> (c # p) # ps))"

text \<open>\<open>old in s\<close> on strings is \<^const>\<open>sublist\<close>; \<open>s.startswith(p)\<close> is \<^const>\<open>prefix\<close>.\<close>

text \<open>
  \<open>str.lower\<close>, for the code points below 256: the capital letters are A to Z and
  U+00C0 to U+00DE without U+00D7, the multiplication sign; the small letter of each
  is 32 code points above it.  Every other character is kept.
\<close>

definition lower_char :: "char \<Rightarrow> char" where
  "lower_char c =
     (let n = (of_char c :: nat)
      in if (65 \<le> n \<and> n \<le> 90) \<or> (192 \<le> n \<and> n \<le> 222 \<and> n \<noteq> 215)
         then char_of (n + 32) else c)"

definition lower :: "string \<Rightarrow> string" where
  "lower s = map lower_char s"

section \<open>The commit line of the report: message normalisation and truncation\<close>

text \<open>
  From \<open>generate_pdf\<close> (both files):
  \<^verbatim>\<open>
  message = commit['comment'].strip().replace('\n', ' ')[:100]
  if len(commit['comment'].strip()) > 100:
      message += "..."
  \<close>
\<close>

definition newline :: char where
  "newline = CHR 0x0A"

definition render_message :: "string \<Rightarrow> string" where
  "render_message comment =
     (let message = take 100 (replace_str [newline] '' '' (strip comment))
      in if length (strip comment) > 100 then message @ ''...'' else message)"

section \<open>Errors\<close>

text \<open>
  The exceptions of the program, as values.  A function that can raise returns
  \<open>error + 'a\<close>, with \<open>Inl\<close> for the exception.
\<close>

datatype error =
    ValueError
  | IndexError
  | KeyError
  | TypeError
  | RequestException
  | HTTPError

text \<open>\<open>xs[i]\<close> for a non-negative constant index: out of range raises \<open>IndexError\<close>.\<close>

definition py_index :: "'a list \<Rightarrow> nat \<Rightarrow> error + 'a" where
  "py_index xs i = (if i < length xs then Inr (xs ! i) else Inl IndexError)"


section \<open>URL parser\<close>

text \<open>
  \<open>parse_repo_url\<close> (the same in both files).  The \<open>raise ValueError("Unsupported
  repository URL format ...")\<close> of the last branch is the spec's \<open>UnsupportedFormatError\<close>.
\<close>

definition repo_name_of :: "string list \<Rightarrow> error + string" where
  "repo_name_of parts =
     (if length parts > 3 then py_index parts 3
      else (case py_index parts 2 of
              Inl e \<Rightarrow> Inl e
            | Inr p \<Rightarrow> Inr (replace_str ''_git/'' [] p)))"

definition parse_repo_url :: "string \<Rightarrow> error + (string \<times> string \<times> string)" where
  "parse_repo_url repo_url =
     (if sublist ''dev.azure.com'' repo_url then
        (let parts = split_on CHR ''/'' (replace_str ''https://dev.azure.com/'' [] repo_url)
         in case py_index parts 0 of
              Inl e \<Rightarrow> Inl e
            | Inr organization \<Rightarrow>
                (case py_index parts 1 of
                   Inl e \<Rightarrow> Inl e
                 | Inr project \<Rightarrow>
                     (case repo_name_of parts of
                        Inl e \<Rightarrow> Inl e
                      | Inr repo_name \<Rightarrow> Inr (organization, project, repo_name))))
      else if sublist ''visualstudio.com'' repo_url then
        (let parts = split_on CHR ''/'' (replace_str ''https://'' [] repo_url)
         in case py_index parts 0 of
              Inl e \<Rightarrow> Inl e
            | Inr p0 \<Rightarrow>
                (let organization = replace_str ''.visualstudio.com'' [] p0
                 in case py_index parts 1 of
                      Inl e \<Rightarrow> Inl e
                    | Inr project \<Rightarrow>
                        (case repo_name_of parts of
                           Inl e \<Rightarrow> Inl e
                         | Inr repo_name \<Rightarrow> Inr (organization, project, repo_name))))
      else Inl ValueError)"

section \<open>Commits\<close>

text \<open>
  A commit is the JSON object of the commit-listing endpoint, to which \<open>fetch_commits\<close>
  adds the keys \<open>repository\<close>, \<open>organization\<close>, \<open>project\<close> and \<open>branches\<close>.  A field is
  \<open>None\<close> when the key is absent: reading it with \<open>commit[key]\<close> raises \<open>KeyError\<close>,
  reading it with \<open>.get(key, default)\<close> gives the default.  The three \<open>author_\<close> fields
  are the keys \<open>name\<close>, \<open>email\<close> and \<open>date\<close> of \<open>commit['author']\<close>.
\<close>

record commit =
  commitId :: "string option"
  author_name :: "string option"
  author_email :: "string option"
  author_date :: "string option"
  comment :: "string option"
  repository :: "string option"
  organization :: "string option"
  project :: "string option"
  branches :: "string list option"

text \<open>A commit as the listing endpoint returns it, before \<open>fetch_commits\<close> adds its keys.\<close>

definition listed_commit :: "string \<Rightarrow> string \<Rightarrow> string \<Rightarrow> string \<Rightarrow> string \<Rightarrow> commit" where
  "listed_commit commit_id name email date msg =
     \<lparr>commitId = Some commit_id, author_name = Some name, author_email = Some email,
      author_date = Some date, comment = Some msg, repository = None,
      organization = None, project = None, branches = None\<rparr>"

text \<open>
  The standard library's \<open>datetime\<close>, by the observations the program makes of it:
  \<open>strftime('%Y-%m-%d')\<close>, \<open>strftime('%H:%M:%S')\<close>, whether it carries a UTC offset,
  and the point in time that comparisons between two datetimes of the same kind
  order them by.  Comparing an offset-aware with an offset-naive one raises
  \<open>TypeError\<close>.
\<close>

record datetime =
  ymd :: string
  hms :: string
  aware :: bool
  instant :: int

text \<open>
  \<open>datetime.fromisoformat\<close> belongs to the standard library, not to the repository:
  it is a parameter \<open>fromiso\<close> of the functions that call it, \<open>None\<close> where it raises
  \<open>ValueError\<close>.
  \<^verbatim>\<open>datetime.fromisoformat(commit['author']['date'].replace('Z', '+00:00'))\<close>
\<close>

definition commit_datetime :: "(string \<Rightarrow> datetime option) \<Rightarrow> commit \<Rightarrow> error + datetime" where
  "commit_datetime fromiso c =
     (case author_date c of
        None \<Rightarrow> Inl KeyError
      | Some d \<Rightarrow>
          (case fromiso (replace_str ''Z'' ''+00:00'' d) of
             None \<Rightarrow> Inl ValueError
           | Some t \<Rightarrow> Inr t))"

section \<open>The remote API\<close>

text \<open>
  The program is sequential and issues each request once, so a behaviour of the remote
  API is the outcome of every request in the order they are made.  \<open>Raised\<close> is any
  exception of the HTTP call (timeout, connection error); otherwise the response has a
  status code.  A body is \<open>Malformed\<close> when \<open>response.json()\<close> or the reading of the
  decoded value raises; otherwise it is what the program reads from it.
\<close>

datatype http_result = Raised | Status nat

datatype refs_body = RefsMalformed | RefsValue "string list"

datatype refs_result = RefsRaised | RefsResponse nat refs_body

datatype commits_body = CommitsMalformed | CommitsValue "commit list"

datatype commits_result = CommitsRaised | CommitsResponse nat commits_body

text \<open>
  For one call of \<open>fetch_commits\<close>: the response of the commit listing, and for the
  \<open>i\<close>-th commit of the loop the response of the branch listing and of the \<open>k\<close>-th
  containment probe, made for branch \<open>b\<close>.
\<close>

record api =
  list_commits :: commits_result
  list_refs :: "nat \<Rightarrow> refs_result"
  probe_commit :: "nat \<Rightarrow> nat \<Rightarrow> string \<Rightarrow> http_result"

section \<open>Branch resolver\<close>

definition common_branches :: "string list" where
  "common_branches = [''main'', ''master'', ''develop'', ''dev'', ''feature'']"

text \<open>
  \<^verbatim>\<open>
  for ref in data.get('value', []):
      if ref['name'].startswith('refs/heads/'):
          branch_name = ref['name'].replace('refs/heads/', '')
          all_branches.append(branch_name)
  \<close>
\<close>

definition head_branches :: "string list \<Rightarrow> string list" where
  "head_branches names =
     map (replace_str ''refs/heads/'' []) (filter (prefix ''refs/heads/'') names)"

text \<open>
  \<^verbatim>\<open>
  for branch in all_branches[:3]:
      if branch not in branches_to_check:
          branches_to_check.append(branch)
  \<close>
\<close>

fun add_missing :: "string list \<Rightarrow> string list \<Rightarrow> string list" where
  "add_missing branches_to_check [] = branches_to_check"
| "add_missing branches_to_check (b # bs) =
     add_missing (if b \<in> set branches_to_check then branches_to_check
                  else branches_to_check @ [b]) bs"

definition branches_to_check :: "string list \<Rightarrow> string list" where
  "branches_to_check all_branches =
     add_missing (filter (\<lambda>b. b \<in> set all_branches) common_branches) (take 3 all_branches)"

text \<open>
  The probe loop.  \<open>k\<close> counts the probes made so far, \<open>found\<close> is \<open>branches_found\<close>.
  The result is \<open>branches_found\<close> at the end of the loop and the branches that were
  probed, in order.
  \<^verbatim>\<open>
  for branch_name in branches_to_check:
      try:
          branch_response = self.session.get(commit_url, params=params, timeout=5)
          if branch_response.status_code == 200:
              branches_found.append(branch_name)
          if len(branches_found) >= 2:
              break
      except:
          continue
  \<close>
\<close>

fun probe_loop ::
  "(nat \<Rightarrow> string \<Rightarrow> http_result) \<Rightarrow> nat \<Rightarrow> string list \<Rightarrow> string list
     \<Rightarrow> string list \<times> string list" where
  "probe_loop probe k found [] = (found, [])"
| "probe_loop probe k found (b # bs) =
     (case probe k b of
        Raised \<Rightarrow>
          (let (f, probed) = probe_loop probe (Suc k) found bs in (f, b # probed))
      | Status code \<Rightarrow>
          (let found' = (if code = 200 then found @ [b] else found)
           in if length found' \<ge> 2 then (found', [b])
              else (let (f, probed) = probe_loop probe (Suc k) found' bs
                    in (f, b # probed))))"

text \<open>
  The branches among \<open>bs\<close> whose probe answers with status 200, when the first of
  them is probe number \<open>k\<close>.
\<close>

fun confirmed :: "(nat \<Rightarrow> string \<Rightarrow> http_result) \<Rightarrow> nat \<Rightarrow> string list \<Rightarrow> string list" where
  "confirmed probe k [] = []"
| "confirmed probe k (b # bs) =
     (if probe k b = Status 200 then b # confirmed probe (Suc k) bs
      else confirmed probe (Suc k) bs)"

text \<open>
  \<open>get_commit_branches\<close> of \<open>git_rep_gen.py\<close>, with the list of probed branches beside
  the result.  Every exception of the body ends in \<open>return ['main/master']\<close>.
\<close>

definition get_commit_branches_probes ::
  "refs_result \<Rightarrow> (nat \<Rightarrow> string \<Rightarrow> http_result) \<Rightarrow> string list \<times> string list" where
  "get_commit_branches_probes refs probe =
     (case refs of
        RefsRaised \<Rightarrow> ([''main/master''], [])
      | RefsResponse code body \<Rightarrow>
          if code = 200 then
            (case body of
               RefsMalformed \<Rightarrow> ([''main/master''], [])
             | RefsValue names \<Rightarrow>
                 (let all_branches = head_branches names;
                      (branches_found, probed) =
                         probe_loop probe 0 [] (branches_to_check all_branches)
                  in if branches_found \<noteq> [] then (branches_found, probed)
                     else ([''main/master''], probed)))
          else ([''main/master''], []))"

definition get_commit_branches ::
  "refs_result \<Rightarrow> (nat \<Rightarrow> string \<Rightarrow> http_result) \<Rightarrow> string list" where
  "get_commit_branches refs probe = fst (get_commit_branches_probes refs probe)"

text \<open>
  \<open>get_commit_branches\<close> of \<open>azure_commits_pdf.py\<close>: one request for the refs of the
  commit, no probes.
\<close>

definition get_commit_branches_basic :: "refs_result \<Rightarrow> string list" where
  "get_commit_branches_basic refs =
     (case refs of
        RefsRaised \<Rightarrow> [''unknown'']
      | RefsResponse code body \<Rightarrow>
          if code = 200 then
            (case body of
               RefsMalformed \<Rightarrow> [''unknown'']
             | RefsValue names \<Rightarrow>
                 (let bs = head_branches names
                  in if bs \<noteq> [] then bs else [''unknown'']))
          else [''unknown''])"

section \<open>Commit fetcher\<close>

text \<open>
  The client-side author filter of \<open>fetch_commits\<close> (\<open>git_rep_gen.py\<close>):
  \<^verbatim>\<open>
  author_email = commit.get('author', {}).get('email', '').lower()
  author_name = commit.get('author', {}).get('name', '').lower()
  author_filter_lower = author_filter.lower()
  if (author_filter_lower in author_email or
      author_filter_lower in author_name or
      author_email == author_filter_lower or
      author_name == author_filter_lower):
      filtered_commits.append(commit)
  \<close>
\<close>

definition get_or_empty :: "string option \<Rightarrow> string" where
  "get_or_empty v = (case v of None \<Rightarrow> [] | Some s \<Rightarrow> s)"

definition author_matches :: "string \<Rightarrow> commit \<Rightarrow> bool" where
  "author_matches author_filter c =
     (let email = lower (get_or_empty (author_email c));
          name = lower (get_or_empty (author_name c));
          author_filter_lower = lower author_filter
      in sublist author_filter_lower email \<or>
         sublist author_filter_lower name \<or>
         email = author_filter_lower \<or>
         name = author_filter_lower)"

text \<open>\<open>if author_filter:\<close> holds for a string that is neither \<open>None\<close> nor empty.\<close>

definition is_set :: "string option \<Rightarrow> bool" where
  "is_set author_filter = (case author_filter of None \<Rightarrow> False | Some f \<Rightarrow> f \<noteq> [])"

definition client_side_filter :: "string option \<Rightarrow> commit list \<Rightarrow> commit list" where
  "client_side_filter author_filter commits =
     (if is_set author_filter then filter (author_matches (the author_filter)) commits
      else commits)"

text \<open>
  The loop that attaches the repository identity and the branch list; \<open>i\<close> is the
  position of the commit in the loop.  \<open>commit['commitId']\<close> is read only when branch
  detection is not skipped.
\<close>

fun attach_branches ::
  "api \<Rightarrow> bool \<Rightarrow> string \<Rightarrow> string \<Rightarrow> string \<Rightarrow> nat \<Rightarrow> commit list
     \<Rightarrow> error + commit list" where
  "attach_branches a skip_branches org proj repo_name i [] = Inr []"
| "attach_branches a skip_branches org proj repo_name i (c # cs) =
     (let c1 = c\<lparr>repository := Some repo_name, organization := Some org,
                 project := Some proj\<rparr>
      in case (if skip_branches then Inr [''main'']
               else (case commitId c1 of
                       None \<Rightarrow> Inl KeyError
                     | Some commit_id \<Rightarrow>
                         Inr (get_commit_branches (list_refs a i) (probe_commit a i)))) of
           Inl e \<Rightarrow> Inl e
         | Inr bs \<Rightarrow>
             (case attach_branches a skip_branches org proj repo_name (Suc i) cs of
                Inl e \<Rightarrow> Inl e
              | Inr cs' \<Rightarrow> Inr (c1\<lparr>branches := Some bs\<rparr> # cs')))"

text \<open>
  The body of the \<open>try\<close> of \<open>fetch_commits\<close> (\<open>git_rep_gen.py\<close>).  The token and the
  look-back window only shape the request; the response is \<open>list_commits\<close>.
  \<open>raise_for_status\<close> raises for the status codes 400 to 599.
\<close>

definition fetch_commits_try ::
  "api \<Rightarrow> string \<Rightarrow> bool \<Rightarrow> string option \<Rightarrow> error + commit list" where
  "fetch_commits_try a repo_url skip_branches author_filter =
     (case parse_repo_url repo_url of
        Inl e \<Rightarrow> Inl e
      | Inr (org, proj, repo_name) \<Rightarrow>
          (case list_commits a of
             CommitsRaised \<Rightarrow> Inl RequestException
           | CommitsResponse code body \<Rightarrow>
               if 400 \<le> code \<and> code < 600 then Inl HTTPError
               else (case body of
                       CommitsMalformed \<Rightarrow> Inl ValueError
                     | CommitsValue commits \<Rightarrow>
                         attach_branches a skip_branches org proj repo_name 0
                           (client_side_filter author_filter commits))))"

text \<open>
  \<^verbatim>\<open>
  except requests.exceptions.RequestException as e:
      return []
  except Exception as e:
      return []
  \<close>
\<close>

definition fetch_commits ::
  "api \<Rightarrow> string \<Rightarrow> bool \<Rightarrow> string option \<Rightarrow> commit list" where
  "fetch_commits a repo_url skip_branches author_filter =
     (case fetch_commits_try a repo_url skip_branches author_filter of
        Inl e \<Rightarrow> []
      | Inr commits \<Rightarrow> commits)"

text \<open>\<open>fetch_commits\<close> of \<open>azure_commits_pdf.py\<close>: no author filter, no skipping.\<close>

fun attach_branches_basic ::
  "api \<Rightarrow> string \<Rightarrow> string \<Rightarrow> string \<Rightarrow> nat \<Rightarrow> commit list \<Rightarrow> error + commit list" where
  "attach_branches_basic a org proj repo_name i [] = Inr []"
| "attach_branches_basic a org proj repo_name i (c # cs) =
     (let c1 = c\<lparr>repository := Some repo_name, organization := Some org,
                 project := Some proj\<rparr>
      in case commitId c1 of
           None \<Rightarrow> Inl KeyError
         | Some commit_id \<Rightarrow>
             (case attach_branches_basic a org proj repo_name (Suc i) cs of
                Inl e \<Rightarrow> Inl e
              | Inr cs' \<Rightarrow>
                  Inr (c1\<lparr>branches := Some (get_commit_branches_basic (list_refs a i))\<rparr>
                       # cs')))"

definition fetch_commits_basic_try :: "api \<Rightarrow> string \<Rightarrow> error + commit list" where
  "fetch_commits_basic_try a repo_url =
     (case parse_repo_url repo_url of
        Inl e \<Rightarrow> Inl e
      | Inr (org, proj, repo_name) \<Rightarrow>
          (case list_commits a of
             CommitsRaised \<Rightarrow> Inl RequestException
           | CommitsResponse code body \<Rightarrow>
               if 400 \<le> code \<and> code < 600 then Inl HTTPError
               else (case body of
                       CommitsMalformed \<Rightarrow> Inl ValueError
                     | CommitsValue commits \<Rightarrow>
                         attach_branches_basic a org proj repo_name 0 commits)))"

definition fetch_commits_basic :: "api \<Rightarrow> string \<Rightarrow> commit list" where
  "fetch_commits_basic a repo_url =
     (case fetch_commits_basic_try a repo_url of
        Inl e \<Rightarrow> []
      | Inr commits \<Rightarrow> commits)"

section \<open>Aggregator\<close>

text \<open>
  A Python \<open>dict\<close> keeps its keys in insertion order: an association list with
  distinct keys.  The Grouped Report is a \<open>defaultdict\<close> of \<open>defaultdict\<close>s of
  \<open>defaultdict(list)\<close>.
\<close>

type_synonym 'v dict = "(string \<times> 'v) list"

type_synonym report = "commit list dict dict dict"

definition keys :: "'v dict \<Rightarrow> string list" where
  "keys m = map fst m"

text \<open>\<open>m[k]\<close> on a \<open>defaultdict\<close> whose factory gives \<open>dflt\<close>.\<close>

definition lookup :: "'v \<Rightarrow> 'v dict \<Rightarrow> string \<Rightarrow> 'v" where
  "lookup dflt m k = (case map_of m k of None \<Rightarrow> dflt | Some v \<Rightarrow> v)"

text \<open>
  \<open>m[k]\<close> followed by an update in place of the value found: a new key goes to the end,
  with the updated default.
\<close>

fun modify :: "'v \<Rightarrow> string \<Rightarrow> ('v \<Rightarrow> 'v) \<Rightarrow> 'v dict \<Rightarrow> 'v dict" where
  "modify dflt k f [] = [(k, f dflt)]"
| "modify dflt k f ((k', v) # m) =
     (if k' = k then (k', f v) # m else (k', v) # modify dflt k f m)"

text \<open>\<^verbatim>\<open>organized[date_key][repo_name][branch].append(commit)\<close>\<close>

definition append_commit :: "string \<Rightarrow> string \<Rightarrow> string \<Rightarrow> commit \<Rightarrow> report \<Rightarrow> report" where
  "append_commit date_key repo_name branch c organized =
     modify [] date_key (modify [] repo_name (modify [] branch (\<lambda>l. l @ [c]))) organized"

text \<open>\<^verbatim>\<open>for branch in branches: organized[date_key][repo_name][branch].append(commit)\<close>\<close>

fun append_to_branches ::
  "string \<Rightarrow> string \<Rightarrow> commit \<Rightarrow> string list \<Rightarrow> report \<Rightarrow> report" where
  "append_to_branches date_key repo_name c [] organized = organized"
| "append_to_branches date_key repo_name c (b # bs) organized =
     append_to_branches date_key repo_name c bs (append_commit date_key repo_name b c organized)"

text \<open>\<^verbatim>\<open>branches = commit.get('branches', ['unknown'])\<close>\<close>

definition branches_of :: "commit \<Rightarrow> string list" where
  "branches_of c = (case branches c of None \<Rightarrow> [''unknown''] | Some bs \<Rightarrow> bs)"

fun organize_loop ::
  "(string \<Rightarrow> datetime option) \<Rightarrow> report \<Rightarrow> commit list \<Rightarrow> error + report" where
  "organize_loop fromiso organized [] = Inr organized"
| "organize_loop fromiso organized (c # cs) =
     (case commit_datetime fromiso c of
        Inl e \<Rightarrow> Inl e
      | Inr commit_date \<Rightarrow>
          (case repository c of
             None \<Rightarrow> Inl KeyError
           | Some repo_name \<Rightarrow>
               organize_loop fromiso
                 (append_to_branches (ymd commit_date) repo_name c (branches_of c) organized)
                 cs))"

definition organize_commits_by_date_and_repo ::
  "(string \<Rightarrow> datetime option) \<Rightarrow> commit list \<Rightarrow> error + report" where
  "organize_commits_by_date_and_repo fromiso all_commits = organize_loop fromiso [] all_commits"

text \<open>The leaf list under a date, a repository and a branch; empty when a key is absent.\<close>

definition leaf :: "report \<Rightarrow> string \<Rightarrow> string \<Rightarrow> string \<Rightarrow> commit list" where
  "leaf organized d r b = lookup [] (lookup [] (lookup [] organized d) r) b"

text \<open>
  \<^verbatim>\<open>
  total_commits = sum(
      len(commits) for date_commits in organized_commits.values()
      for repo_commits in date_commits.values()
      for commits in repo_commits.values())
  \<close>
\<close>

definition total_commits :: "report \<Rightarrow> nat" where
  "total_commits organized_commits =
     sum_list (concat (map (\<lambda>(d, date_commits).
       concat (map (\<lambda>(r, repo_commits). map (\<lambda>(b, commits). length commits) repo_commits)
                   date_commits)) organized_commits))"

section \<open>Report renderer\<close>










text \<open>A Python \<open>dict\<close> has no key twice; so at every level of a Grouped Report.\<close>

definition wf_report :: "report \<Rightarrow> bool" where
  "wf_report organized =
     (distinct (keys organized) \<and>
      (\<forall>(d, repos)\<in>set organized. distinct (keys repos) \<and>
         (\<forall>(r, bs)\<in>set repos. distinct (keys bs))))"

section \<open>Notions used to state the properties of the aggregator\<close>

text \<open>
  The date key of a commit, \<^verbatim>\<open>commit_date.strftime('%Y-%m-%d')\<close>, when its timestamp
  can be read.
\<close>

definition date_key :: "(string \<Rightarrow> datetime option) \<Rightarrow> commit \<Rightarrow> string option" where
  "date_key fromiso c =
     (case commit_datetime fromiso c of Inl e \<Rightarrow> None | Inr t \<Rightarrow> Some (ymd t))"

text \<open>
  A Grouped Report as a mapping of mappings of mappings, the leaf lists as multisets:
  the order of the keys and the order within the leaf lists are forgotten.
\<close>

definition report_view ::
  "report \<Rightarrow> string \<Rightarrow> (string \<Rightarrow> (string \<Rightarrow> commit multiset option) option) option" where
  "report_view organized =
     (\<lambda>d. map_option
        (\<lambda>repos. (\<lambda>r. map_option (\<lambda>bs. (\<lambda>b. map_option mset (map_of bs b))) (map_of repos r)))
        (map_of organized d))"

text \<open>No date without a repository, no repository without a branch, no empty leaf list.\<close>

definition tight :: "report \<Rightarrow> bool" where
  "tight organized =
     (\<forall>(d, repos)\<in>set organized. repos \<noteq> [] \<and>
        (\<forall>(r, bs)\<in>set repos. bs \<noteq> [] \<and> (\<forall>(b, l)\<in>set bs. l \<noteq> [])))"

section \<open>Notions used to state the order of the report\<close>








section \<open>Example data\<close>

text \<open>
  What \<open>datetime.fromisoformat\<close> returns for the two timestamps of the examples, after
  the trailing \<open>Z\<close> has become \<open>+00:00\<close>; the instant is in seconds since 1970.
\<close>

definition example_fromiso :: "string \<Rightarrow> datetime option" where
  "example_fromiso s =
     (if s = ''2024-01-02T10:00:00+00:00''
      then Some \<lparr>ymd = ''2024-01-02'', hms = ''10:00:00'', aware = True, instant = 1704189600\<rparr>
      else if s = ''2024-01-01T23:00:00+00:00''
      then Some \<lparr>ymd = ''2024-01-01'', hms = ''23:00:00'', aware = True, instant = 1704150000\<rparr>
      else None)"

text \<open>A commit after \<open>fetch_commits\<close>: with its repository and its branch list.\<close>

definition fetched_commit ::
  "string \<Rightarrow> string \<Rightarrow> string \<Rightarrow> string list \<Rightarrow> commit" where
  "fetched_commit commit_id date repo_name bs =
     (listed_commit commit_id ''Alice'' ''alice@example.com'' date ''message'')
       \<lparr>repository := Some repo_name, organization := Some ''org'',
        project := Some ''proj'', branches := Some bs\<rparr>"

section \<open>Facts about the string functions\<close>

lemma replace_str_Nil: "old \<noteq> [] \<Longrightarrow> replace_str old new [] = []"
  by (simp add: replace_str.simps)

lemma replace_str_single:
  "replace_str [a] [b] s = map (\<lambda>c. if c = a then b else c) s"
proof (induction s)
  case Nil
  show ?case by (simp add: replace_str.simps)
next
  case (Cons c cs)
  show ?case
    by (subst replace_str.simps) (use Cons.IH in auto)
qed

lemma strip_Nil_or_ends:
  "strip s = [] \<or> (\<not> is_space (hd (strip s)) \<and> \<not> is_space (last (strip s)))"
proof (cases "strip s = []")
  case True
  then show ?thesis by simp
next
  case False
  let ?t = "dropWhile is_space s"
  let ?u = "dropWhile is_space (rev ?t)"
  from False have u: "?u \<noteq> []" by (simp add: strip_def)
  then have hu: "\<not> is_space (hd ?u)" by (rule hd_dropWhile)
  have last_strip: "last (strip s) = hd ?u"
    using u by (simp add: strip_def last_rev)
  from u have t: "?t \<noteq> []" by (cases "dropWhile is_space s") simp_all
  then have ht: "\<not> is_space (hd ?t)" by (rule hd_dropWhile)
  obtain n where n: "?u = drop n (rev ?t)"
    using dropWhile_eq_drop by blast
  with u have "n < length ?t" by simp
  have "strip s = take (length ?t - n) ?t"
    by (simp add: strip_def n rev_drop)
  moreover have "0 < length ?t - n" using \<open>n < length ?t\<close> by simp
  ultimately have "hd (strip s) = hd ?t"
    by (metis hd_take)
  with ht hu last_strip show ?thesis by simp
qed

lemma strip_decompose:
  "\<exists>l r. s = l @ strip s @ r \<and> (\<forall>c\<in>set l. is_space c) \<and> (\<forall>c\<in>set r. is_space c)"
proof -
  let ?l = "takeWhile is_space s"
  let ?t = "dropWhile is_space s"
  let ?r = "rev (takeWhile is_space (rev ?t))"
  have "?t = rev (dropWhile is_space (rev ?t)) @ rev (takeWhile is_space (rev ?t))"
    by (metis rev_append rev_rev_ident takeWhile_dropWhile_id)
  then have "?t = strip s @ ?r"
    by (simp only: strip_def)
  then have "s = ?l @ strip s @ ?r"
    by (metis takeWhile_dropWhile_id)
  moreover have "\<forall>c\<in>set ?l. is_space c"
    by (auto dest: set_takeWhileD)
  moreover have "\<forall>c\<in>set ?r. is_space c"
    by (auto dest: set_takeWhileD)
  ultimately show ?thesis by blast
qed

section \<open>Message rendering\<close>


lemma is_space_newline: "is_space newline"
  by (simp add: is_space_def newline_def)

lemma not_is_space_dot: "\<not> is_space CHR ''.''"
  by (simp add: is_space_def)

lemma render_message_eq:
  "render_message c =
     take 100 (map (\<lambda>x. if x = newline then CHR '' '' else x) (strip c)) @
     (if 100 < length (strip c) then ''...'' else [])"
  by (simp add: render_message_def replace_str_single Let_def)

text \<open>
  Claim C10.  The rendered message is computed from the stripped message: newlines
  become spaces, the first 100 characters are kept, and the marker is appended when
  the stripped message is longer than 100 characters.  The result holds no newline
  and, when it is not empty, neither starts nor ends with whitespace.
\<close>

theorem render_message_normalised:
  "render_message c =
     take 100 (map (\<lambda>x. if x = newline then CHR '' '' else x) (strip c)) @
     (if 100 < length (strip c) then ''...'' else [])
   \<and> newline \<notin> set (render_message c)
   \<and> (render_message c \<noteq> [] \<longrightarrow>
        \<not> is_space (hd (render_message c)) \<and> \<not> is_space (last (render_message c)))"
proof (intro conjI impI)
  let ?n = "map (\<lambda>x. if x = newline then CHR '' '' else x) (strip c)"
  show eq: "render_message c = take 100 ?n @ (if 100 < length (strip c) then ''...'' else [])"
    by (rule render_message_eq)
  have "newline \<notin> set ?n" by (auto simp: newline_def)
  then have "newline \<notin> set (take 100 ?n)" by (meson in_set_takeD)
  then show "newline \<notin> set (render_message c)"
    by (auto simp: eq newline_def)
  assume ne: "render_message c \<noteq> []"
  then have s: "strip c \<noteq> []" by (auto simp: eq)
  with strip_Nil_or_ends [of c]
  have h: "\<not> is_space (hd (strip c))" and l: "\<not> is_space (last (strip c))" by auto
  from h is_space_newline have hn: "hd (strip c) \<noteq> newline" by auto
  from l is_space_newline have ln: "last (strip c) \<noteq> newline" by auto
  from s hn have "hd (render_message c) = hd (strip c)"
    by (cases "strip c") (auto simp: eq)
  with h show "\<not> is_space (hd (render_message c))" by simp
  show "\<not> is_space (last (render_message c))"
  proof (cases "100 < length (strip c)")
    case True
    then have "last (render_message c) = CHR ''.''" by (simp add: eq)
    then show ?thesis by (simp add: not_is_space_dot)
  next
    case False
    then have "render_message c = ?n" by (simp add: eq)
    with s ln have "last (render_message c) = last (strip c)"
      by (simp add: last_map)
    with l show ?thesis by simp
  qed
qed

theorem render_message_normalised_witness:
  "render_message ('' fix'' @ [newline] @ ''bug '') = ''fix bug''
   \<and> newline \<notin> set (render_message ('' fix'' @ [newline] @ ''bug ''))
   \<and> \<not> is_space (hd (render_message ('' fix'' @ [newline] @ ''bug '')))
   \<and> \<not> is_space (last (render_message ('' fix'' @ [newline] @ ''bug '')))"
proof -
  have r: "render_message ('' fix'' @ [newline] @ ''bug '') = ''fix bug''"
    by (simp add: render_message_eq strip_def is_space_def newline_def)
  with render_message_normalised [of "'' fix'' @ [newline] @ ''bug ''"]
  show ?thesis by (simp add: newline_def is_space_def)
qed

text \<open>
  Claim C8, amended.  The lengths are those of the stripped message: when it is longer
  than 100 characters the rendered message is its first 100 characters, newlines
  replaced by spaces, followed by the marker, 103 characters in all; otherwise it is
  the stripped message with newlines replaced by spaces and no marker.  For a message
  without leading or trailing whitespace and without newline this is the claim as it
  is written.
\<close>

theorem render_message_truncation:
  "(100 < length (strip c) \<longrightarrow>
      render_message c = take 100 (replace_str [newline] '' '' (strip c)) @ ''...''
      \<and> length (render_message c) = 103)
   \<and> (length (strip c) \<le> 100 \<longrightarrow>
      render_message c = replace_str [newline] '' '' (strip c))
   \<and> (strip c = c \<and> newline \<notin> set c \<longrightarrow>
        (100 < length c \<longrightarrow> render_message c = take 100 c @ ''...'')
      \<and> (length c \<le> 100 \<longrightarrow> render_message c = c))"
proof -
  have id: "newline \<notin> set c \<Longrightarrow> map (\<lambda>x. if x = newline then CHR '' '' else x) c = c"
    by (induction c) auto
  show ?thesis
    by (auto simp: render_message_def replace_str_single Let_def id)
qed

theorem render_message_truncation_witness:
  "render_message (replicate 101 CHR ''a'') = replicate 100 CHR ''a'' @ ''...''
   \<and> length (render_message (replicate 101 CHR ''a'')) = 103
   \<and> render_message (replicate 100 CHR ''a'') = replicate 100 CHR ''a''"
proof -
  have s1: "strip (replicate 101 CHR ''a'') = replicate 101 CHR ''a''"
    by (simp add: strip_def is_space_def dropWhile_replicate)
  have s0: "strip (replicate 100 CHR ''a'') = replicate 100 CHR ''a''"
    by (simp add: strip_def is_space_def dropWhile_replicate)
  from render_message_truncation [of "replicate 101 CHR ''a''"]
       render_message_truncation [of "replicate 100 CHR ''a''"] s1 s0
  show ?thesis by (simp add: newline_def replace_str_single)
qed

text \<open>
  Claim C8 as written fails: a message of 101 characters whose last character is a
  space is rendered as its first 100 characters without the marker, and a short
  message with trailing whitespace is not rendered unmodified.
\<close>

theorem render_message_raw_length_counterexample:
  "100 < length (replicate 100 CHR ''a'' @ '' '')
   \<and> render_message (replicate 100 CHR ''a'' @ '' '') = replicate 100 CHR ''a''
   \<and> length ''a b '' \<le> 100 \<and> render_message ''a b '' \<noteq> ''a b ''"
proof -
  have s: "strip (replicate 100 CHR ''a'' @ '' '') = replicate 100 CHR ''a''"
    by (simp add: strip_def is_space_def dropWhile_replicate dropWhile_append)
  have "render_message (replicate 100 CHR ''a'' @ '' '') = replicate 100 CHR ''a''"
    by (simp add: render_message_eq s newline_def)
  moreover have "render_message ''a b '' \<noteq> ''a b ''"
    by (simp add: render_message_eq strip_def is_space_def newline_def)
  ultimately show ?thesis by simp
qed


section \<open>Author filter\<close>

lemma lower_char_idem: "lower_char (lower_char c) = lower_char c"
  by (auto simp: lower_char_def Let_def)

lemma lower_idem: "lower (lower s) = lower s"
  by (simp add: lower_def lower_char_idem)

lemma lower_Nil_iff: "lower s = [] \<longleftrightarrow> s = []"
  by (simp add: lower_def)

text \<open>
  Claim C7.  With a non-empty author filter the client-side filter keeps exactly the
  commits for which the lowercased filter occurs in the lowercased author email or in
  the lowercased author name, or equals one of them, in their order.  The case of the
  filter does not matter: the filter in lower case, and any filter with the same lower
  case, keep the same commits.
\<close>

theorem client_side_filter_keeps:
  assumes "f \<noteq> []"
  shows "client_side_filter (Some f) commits =
           filter (\<lambda>c. sublist (lower f) (lower (get_or_empty (author_email c)))
                     \<or> sublist (lower f) (lower (get_or_empty (author_name c)))
                     \<or> lower (get_or_empty (author_email c)) = lower f
                     \<or> lower (get_or_empty (author_name c)) = lower f) commits
         \<and> client_side_filter (Some (lower f)) commits = client_side_filter (Some f) commits
         \<and> (lower g = lower f \<longrightarrow>
              client_side_filter (Some g) commits = client_side_filter (Some f) commits)"
proof -
  have eq: "client_side_filter (Some h) commits =
           filter (\<lambda>c. sublist (lower h) (lower (get_or_empty (author_email c)))
                     \<or> sublist (lower h) (lower (get_or_empty (author_name c)))
                     \<or> lower (get_or_empty (author_email c)) = lower h
                     \<or> lower (get_or_empty (author_name c)) = lower h) commits"
    if "h \<noteq> []" for h
  proof -
    from that have "client_side_filter (Some h) commits = filter (author_matches h) commits"
      by (simp add: client_side_filter_def is_set_def)
    also have "\<dots> = filter (\<lambda>c. sublist (lower h) (lower (get_or_empty (author_email c)))
                 \<or> sublist (lower h) (lower (get_or_empty (author_name c)))
                 \<or> lower (get_or_empty (author_email c)) = lower h
                 \<or> lower (get_or_empty (author_name c)) = lower h) commits"
      by (rule filter_cong) (simp_all add: author_matches_def Let_def)
    finally show ?thesis .
  qed
  have same: "client_side_filter (Some g) commits = client_side_filter (Some f) commits"
    if "lower g = lower f" for g
  proof -
    from assms have "lower f \<noteq> []" by (simp add: lower_Nil_iff)
    with that have "g \<noteq> []" by (metis lower_Nil_iff)
    from eq [OF this] eq [OF assms] that show ?thesis by simp
  qed
  have "lower (lower f) = lower f" by (rule lower_idem)
  from same [OF this] eq [OF assms] same show ?thesis by blast
qed

theorem client_side_filter_keeps_witness:
  "client_side_filter (Some ''alice@example.com'')
     [listed_commit ''c1'' ''Alice'' ''Alice@Example.com'' ''2024-01-02T10:00:00Z'' ''one'',
      listed_commit ''c2'' ''Bob'' ''bob@example.com'' ''2024-01-02T11:00:00Z'' ''two'',
      listed_commit ''c3'' ''ALICE@EXAMPLE.COM (work)'' ''a@corp.example'' ''2024-01-02T12:00:00Z'' ''three'']
   = [listed_commit ''c1'' ''Alice'' ''Alice@Example.com'' ''2024-01-02T10:00:00Z'' ''one'',
      listed_commit ''c3'' ''ALICE@EXAMPLE.COM (work)'' ''a@corp.example'' ''2024-01-02T12:00:00Z'' ''three'']
   \<and> client_side_filter (Some (CHR 0xE0 # ''lice''))
     [listed_commit ''c4'' (CHR 0xC0 # ''LICE'') ''al@example.com'' ''2024-01-02T10:00:00Z'' ''four'',
      listed_commit ''c2'' ''Bob'' ''bob@example.com'' ''2024-01-02T11:00:00Z'' ''two'']
   = [listed_commit ''c4'' (CHR 0xC0 # ''LICE'') ''al@example.com'' ''2024-01-02T10:00:00Z'' ''four'']
   \<and> client_side_filter (Some ''ALICE@EXAMPLE.COM'')
     [listed_commit ''c1'' ''Alice'' ''Alice@Example.com'' ''2024-01-02T10:00:00Z'' ''one'',
      listed_commit ''c2'' ''Bob'' ''bob@example.com'' ''2024-01-02T11:00:00Z'' ''two'']
   = client_side_filter (Some ''alice@example.com'')
     [listed_commit ''c1'' ''Alice'' ''Alice@Example.com'' ''2024-01-02T10:00:00Z'' ''one'',
      listed_commit ''c2'' ''Bob'' ''bob@example.com'' ''2024-01-02T11:00:00Z'' ''two'']"
proof -
  have ne: "''alice@example.com'' \<noteq> []" by simp
  have ne2: "CHR 0xE0 # ''lice'' \<noteq> []" by simp
  have lo: "lower ''ALICE@EXAMPLE.COM'' = lower ''alice@example.com''" by code_simp
  have a: "client_side_filter (Some ''alice@example.com'')
     [listed_commit ''c1'' ''Alice'' ''Alice@Example.com'' ''2024-01-02T10:00:00Z'' ''one'',
      listed_commit ''c2'' ''Bob'' ''bob@example.com'' ''2024-01-02T11:00:00Z'' ''two'',
      listed_commit ''c3'' ''ALICE@EXAMPLE.COM (work)'' ''a@corp.example'' ''2024-01-02T12:00:00Z'' ''three'']
   = [listed_commit ''c1'' ''Alice'' ''Alice@Example.com'' ''2024-01-02T10:00:00Z'' ''one'',
      listed_commit ''c3'' ''ALICE@EXAMPLE.COM (work)'' ''a@corp.example'' ''2024-01-02T12:00:00Z'' ''three'']"
    unfolding client_side_filter_keeps [OF ne, THEN conjunct1]
    by code_simp
  have b: "client_side_filter (Some (CHR 0xE0 # ''lice''))
     [listed_commit ''c4'' (CHR 0xC0 # ''LICE'') ''al@example.com'' ''2024-01-02T10:00:00Z'' ''four'',
      listed_commit ''c2'' ''Bob'' ''bob@example.com'' ''2024-01-02T11:00:00Z'' ''two'']
   = [listed_commit ''c4'' (CHR 0xC0 # ''LICE'') ''al@example.com'' ''2024-01-02T10:00:00Z'' ''four'']"
    unfolding client_side_filter_keeps [OF ne2, THEN conjunct1]
    by code_simp
  from client_side_filter_keeps [OF ne, of _ "''ALICE@EXAMPLE.COM''"] lo
  have c: "client_side_filter (Some ''ALICE@EXAMPLE.COM'') cs =
           client_side_filter (Some ''alice@example.com'') cs" for cs
    by blast
  from a b c show ?thesis by blast
qed

section \<open>Branch resolver\<close>

lemma add_missing_shape:
  "\<exists>extra. add_missing acc xs = acc @ extra \<and> length extra \<le> length xs
      \<and> set extra \<subseteq> set xs \<and> set extra \<inter> set acc = {} \<and> distinct extra"
proof (induction xs arbitrary: acc)
  case Nil
  show ?case by simp
next
  case (Cons b bs)
  show ?case
  proof (cases "b \<in> set acc")
    case True
    from Cons.IH [of acc] obtain extra where
      "add_missing acc bs = acc @ extra" "length extra \<le> length bs"
      "set extra \<subseteq> set bs" "set extra \<inter> set acc = {}" "distinct extra"
      by blast
    with True show ?thesis by auto
  next
    case False
    from Cons.IH [of "acc @ [b]"] obtain extra where e:
      "add_missing (acc @ [b]) bs = (acc @ [b]) @ extra" "length extra \<le> length bs"
      "set extra \<subseteq> set bs" "set extra \<inter> set (acc @ [b]) = {}" "distinct extra"
      by blast
    let ?x = "b # extra"
    from False e have "add_missing acc (b # bs) = acc @ ?x" by simp
    moreover from e have "length ?x \<le> length (b # bs)" by simp
    moreover from e have "set ?x \<subseteq> set (b # bs)" by auto
    moreover from e False have "set ?x \<inter> set acc = {}" by auto
    moreover from e have "distinct ?x" by auto
    ultimately show ?thesis by blast
  qed
qed

lemma distinct_common_branches: "distinct common_branches"
  by (simp add: common_branches_def)

lemma branches_to_check_shape:
  "\<exists>extra. branches_to_check all_branches =
             filter (\<lambda>b. b \<in> set all_branches) common_branches @ extra
      \<and> length extra \<le> 3 \<and> set extra \<subseteq> set all_branches
      \<and> set extra \<inter> set (filter (\<lambda>b. b \<in> set all_branches) common_branches) = {}
      \<and> distinct extra"
proof -
  let ?pref = "filter (\<lambda>b. b \<in> set all_branches) common_branches"
  from add_missing_shape [of ?pref "take 3 all_branches"] obtain extra where e:
    "add_missing ?pref (take 3 all_branches) = ?pref @ extra"
    "length extra \<le> length (take 3 all_branches)"
    "set extra \<subseteq> set (take 3 all_branches)" "set extra \<inter> set ?pref = {}" "distinct extra"
    by blast
  from e(2) have "length extra \<le> 3" by simp
  moreover from e(3) have "set extra \<subseteq> set all_branches"
    by (meson in_set_takeD subset_iff)
  ultimately show ?thesis using e unfolding branches_to_check_def by blast
qed

lemma distinct_branches_to_check: "distinct (branches_to_check all_branches)"
proof -
  from branches_to_check_shape [of all_branches] obtain extra where e:
    "branches_to_check all_branches =
       filter (\<lambda>b. b \<in> set all_branches) common_branches @ extra"
    "set extra \<inter> set (filter (\<lambda>b. b \<in> set all_branches) common_branches) = {}"
    "distinct extra"
    by blast
  have "distinct (filter (\<lambda>b. b \<in> set all_branches) common_branches)"
    using distinct_common_branches by simp
  with e show ?thesis by auto
qed

lemma length_branches_to_check: "length (branches_to_check all_branches) \<le> 8"
proof -
  from branches_to_check_shape [of all_branches] obtain extra where e:
    "branches_to_check all_branches =
       filter (\<lambda>b. b \<in> set all_branches) common_branches @ extra"
    "length extra \<le> 3"
    by blast
  have "length (filter (\<lambda>b. b \<in> set all_branches) common_branches) \<le> length common_branches"
    by (rule length_filter_le)
  also have "\<dots> = 5" by (simp add: common_branches_def)
  finally show ?thesis using e by simp
qed

lemma probe_loop_spec:
  assumes "probe_loop probe k found cs = (f, probed)" "length found < 2"
  shows "prefix probed cs \<and> f = found @ confirmed probe k probed
         \<and> (probed = cs \<or> length f = 2)
         \<and> (\<forall>n<length probed. length (found @ confirmed probe k (take n probed)) < 2)"
  using assms
proof (induction cs arbitrary: k found f probed)
  case Nil
  then show ?case by simp
next
  case (Cons b bs)
  show ?case
  proof (cases "probe k b")
    case Raised
    obtain f' p' where r: "probe_loop probe (Suc k) found bs = (f', p')"
      by (cases "probe_loop probe (Suc k) found bs") auto
    with Cons.prems Raised have fp: "f = f'" "probed = b # p'" by auto
    from Cons.IH [OF r Cons.prems(2)] have ih:
      "prefix p' bs" "f' = found @ confirmed probe (Suc k) p'"
      "p' = bs \<or> length f' = 2"
      "\<forall>n<length p'. length (found @ confirmed probe (Suc k) (take n p')) < 2"
      by auto
    have "\<forall>n<length probed. length (found @ confirmed probe k (take n probed)) < 2"
    proof (intro allI impI)
      fix n assume n: "n < length probed"
      show "length (found @ confirmed probe k (take n probed)) < 2"
      proof (cases n)
        case 0
        then show ?thesis using Cons.prems(2) by simp
      next
        case (Suc m)
        with n fp have "m < length p'" by simp
        with ih(4) have "length (found @ confirmed probe (Suc k) (take m p')) < 2" by blast
        with Suc fp Raised show ?thesis by simp
      qed
    qed
    with ih fp Raised show ?thesis by simp
  next
    case (Status code)
    show ?thesis
    proof (cases "code = 200")
      case False
      obtain f' p' where r: "probe_loop probe (Suc k) found bs = (f', p')"
        by (cases "probe_loop probe (Suc k) found bs") auto
      with Cons.prems Status False have fp: "f = f'" "probed = b # p'" by auto
      from Cons.IH [OF r Cons.prems(2)] have ih:
        "prefix p' bs" "f' = found @ confirmed probe (Suc k) p'"
        "p' = bs \<or> length f' = 2"
        "\<forall>n<length p'. length (found @ confirmed probe (Suc k) (take n p')) < 2"
        by auto
      have "\<forall>n<length probed. length (found @ confirmed probe k (take n probed)) < 2"
      proof (intro allI impI)
        fix n assume n: "n < length probed"
        show "length (found @ confirmed probe k (take n probed)) < 2"
        proof (cases n)
          case 0
          then show ?thesis using Cons.prems(2) by simp
        next
          case (Suc m)
          with n fp have "m < length p'" by simp
          with ih(4) have "length (found @ confirmed probe (Suc k) (take m p')) < 2" by blast
          with Suc fp Status False show ?thesis by simp
        qed
      qed
      with ih fp Status False show ?thesis by simp
    next
      case True
      show ?thesis
      proof (cases "length (found @ [b]) \<ge> 2")
        case stop: True
        with Cons.prems Status \<open>code = 200\<close> have fp: "f = found @ [b]" "probed = [b]"
          by auto
        from stop Cons.prems(2) have "length f = 2" using fp by simp
        moreover have "\<forall>n<length probed. length (found @ confirmed probe k (take n probed)) < 2"
          using fp Cons.prems(2) by simp
        ultimately show ?thesis using fp Status \<open>code = 200\<close> by simp
      next
        case go: False
        obtain f' p' where r: "probe_loop probe (Suc k) (found @ [b]) bs = (f', p')"
          by (cases "probe_loop probe (Suc k) (found @ [b]) bs") auto
        with Cons.prems Status \<open>code = 200\<close> go have fp: "f = f'" "probed = b # p'" by auto
        from go have l: "length (found @ [b]) < 2" by linarith
        from Cons.IH [OF r l] have ih:
          "prefix p' bs" "f' = (found @ [b]) @ confirmed probe (Suc k) p'"
          "p' = bs \<or> length f' = 2"
          "\<forall>n<length p'. length ((found @ [b]) @ confirmed probe (Suc k) (take n p')) < 2"
          by auto
        have "\<forall>n<length probed. length (found @ confirmed probe k (take n probed)) < 2"
        proof (intro allI impI)
          fix n assume n: "n < length probed"
          show "length (found @ confirmed probe k (take n probed)) < 2"
          proof (cases n)
            case 0
            then show ?thesis using Cons.prems(2) by simp
          next
            case (Suc m)
            with n fp have "m < length p'" by simp
            with ih(4) have "length ((found @ [b]) @ confirmed probe (Suc k) (take m p')) < 2"
              by blast
            with Suc fp Status \<open>code = 200\<close> show ?thesis by simp
          qed
        qed
        with ih fp Status \<open>code = 200\<close> show ?thesis by simp
      qed
    qed
  qed
qed

lemma confirmed_subset: "set (confirmed probe k bs) \<subseteq> set bs"
  by (induction bs arbitrary: k) auto

lemma confirmed_none: "(\<And>k b. probe k b \<noteq> Status 200) \<Longrightarrow> confirmed probe k bs = []"
  by (induction bs arbitrary: k) auto


lemma probes_of_refs_value:
  "get_commit_branches_probes (RefsResponse 200 (RefsValue names)) probe =
     (let r = probe_loop probe 0 [] (branches_to_check (head_branches names))
      in (if fst r \<noteq> [] then fst r else [''main/master''], snd r))"
  by (simp add: get_commit_branches_probes_def Let_def split: prod.splits)

lemma probes_of_failure:
  "(\<And>names. refs \<noteq> RefsResponse 200 (RefsValue names)) \<Longrightarrow>
     get_commit_branches_probes refs probe = ([''main/master''], [])"
  by (auto simp: get_commit_branches_probes_def split: refs_result.splits refs_body.splits)

lemma probe_loop_start:
  "prefix (snd (probe_loop probe 0 [] cs)) cs
   \<and> fst (probe_loop probe 0 [] cs) = confirmed probe 0 (snd (probe_loop probe 0 [] cs))
   \<and> (snd (probe_loop probe 0 [] cs) = cs
        \<or> length (confirmed probe 0 (snd (probe_loop probe 0 [] cs))) = 2)
   \<and> (\<forall>n<length (snd (probe_loop probe 0 [] cs)).
         length (confirmed probe 0 (take n (snd (probe_loop probe 0 [] cs)))) < 2)"
proof -
  obtain f probed where r: "probe_loop probe 0 [] cs = (f, probed)"
    by (cases "probe_loop probe 0 [] cs") auto
  from probe_loop_spec [OF r] show ?thesis
    by (auto simp: r)
qed

text \<open>
  Claim C5.  The candidate list is the preferred names that exist, in their fixed
  order, followed by at most three further branches of the full list that are not
  among them; no candidate occurs twice.  The probed branches are an initial part of
  the candidate list, so each candidate is probed at most once and no call makes more
  than eight probes.  Probing ends with the whole list probed or at the second
  confirmation, and never goes on after two confirmations.
\<close>

theorem resolver_bounded_probes:
  "(\<exists>extra. branches_to_check all_branches =
              filter (\<lambda>b. b \<in> set all_branches) common_branches @ extra
       \<and> length extra \<le> 3 \<and> set extra \<subseteq> set all_branches
       \<and> set extra \<inter> set (filter (\<lambda>b. b \<in> set all_branches) common_branches) = {}
       \<and> distinct extra)
   \<and> distinct (branches_to_check all_branches)
   \<and> length (snd (get_commit_branches_probes refs probe)) \<le> 8
   \<and> prefix (snd (get_commit_branches_probes (RefsResponse 200 (RefsValue names)) probe))
        (branches_to_check (head_branches names))
   \<and> (snd (get_commit_branches_probes (RefsResponse 200 (RefsValue names)) probe) =
         branches_to_check (head_branches names)
       \<or> length (confirmed probe 0
           (snd (get_commit_branches_probes (RefsResponse 200 (RefsValue names)) probe))) = 2)
   \<and> (\<forall>n < length (snd (get_commit_branches_probes (RefsResponse 200 (RefsValue names)) probe)).
         length (confirmed probe 0 (take n
           (snd (get_commit_branches_probes (RefsResponse 200 (RefsValue names)) probe)))) < 2)"
proof -
  let ?cs = "branches_to_check (head_branches names)"
  have s: "snd (get_commit_branches_probes (RefsResponse 200 (RefsValue names)) probe) =
           snd (probe_loop probe 0 [] ?cs)"
    by (simp add: probes_of_refs_value Let_def)
  have bound: "length (snd (get_commit_branches_probes refs probe)) \<le> 8"
  proof (cases "\<exists>ns. refs = RefsResponse 200 (RefsValue ns)")
    case True
    then obtain ns where ns: "refs = RefsResponse 200 (RefsValue ns)" by blast
    let ?c = "branches_to_check (head_branches ns)"
    have "prefix (snd (probe_loop probe 0 [] ?c)) ?c"
      using probe_loop_start [of probe ?c] by blast
    then have "length (snd (probe_loop probe 0 [] ?c)) \<le> length ?c"
      by (rule prefix_length_le)
    also have "\<dots> \<le> 8" by (rule length_branches_to_check)
    finally show ?thesis by (simp add: ns probes_of_refs_value Let_def)
  next
    case False
    then have "get_commit_branches_probes refs probe = ([''main/master''], [])"
      by (intro probes_of_failure) blast
    then show ?thesis by simp
  qed
  from probe_loop_start [of probe ?cs] branches_to_check_shape [of all_branches]
       distinct_branches_to_check [of all_branches] bound
  show ?thesis unfolding s by blast
qed

theorem resolver_bounded_probes_witness:
  "branches_to_check
     (head_branches [''refs/heads/zeta'', ''refs/heads/main'', ''refs/heads/dev'',
                     ''refs/heads/alpha'', ''refs/tags/v1''])
     = [''main'', ''dev'', ''zeta'']
   \<and> snd (get_commit_branches_probes
       (RefsResponse 200 (RefsValue [''refs/heads/zeta'', ''refs/heads/main'',
          ''refs/heads/dev'', ''refs/heads/alpha'', ''refs/tags/v1'']))
       (\<lambda>k b. if b = ''zeta'' then Status 404 else Status 200)) = [''main'', ''dev'']
   \<and> length (confirmed (\<lambda>k b. if b = ''zeta'' then Status 404 else Status 200) 0
        [''main'', ''dev'']) = 2
   \<and> length (confirmed (\<lambda>k b. if b = ''zeta'' then Status 404 else Status 200) 0
        (take 1 [''main'', ''dev''])) < 2"
proof -
  let ?names = "[''refs/heads/zeta'', ''refs/heads/main'', ''refs/heads/dev'',
                 ''refs/heads/alpha'', ''refs/tags/v1'']"
  let ?probe = "\<lambda>(k::nat) b. if b = ''zeta'' then Status 404 else Status 200"
  have c: "branches_to_check (head_branches ?names) = [''main'', ''dev'', ''zeta'']"
    by code_simp
  have p: "snd (get_commit_branches_probes (RefsResponse 200 (RefsValue ?names)) ?probe)
           = [''main'', ''dev'']"
    by code_simp
  from resolver_bounded_probes [of "head_branches ?names" "RefsResponse 200 (RefsValue ?names)"
         ?probe ?names]
  have "(snd (get_commit_branches_probes (RefsResponse 200 (RefsValue ?names)) ?probe) =
           branches_to_check (head_branches ?names)
         \<or> length (confirmed ?probe 0
             (snd (get_commit_branches_probes (RefsResponse 200 (RefsValue ?names)) ?probe))) = 2)"
    and "\<forall>n < length (snd (get_commit_branches_probes (RefsResponse 200 (RefsValue ?names)) ?probe)).
         length (confirmed ?probe 0 (take n
           (snd (get_commit_branches_probes (RefsResponse 200 (RefsValue ?names)) ?probe)))) < 2"
    by blast+
  then have "length (confirmed ?probe 0 [''main'', ''dev'']) = 2"
    and "length (confirmed ?probe 0 (take 1 [''main'', ''dev''])) < 2"
    unfolding p c by auto
  with c p show ?thesis by blast
qed

text \<open>
  Claim C4.  Both resolvers return a list that is never empty, and every exception of
  their bodies ends in the return of the sentinel, so none reaches the caller.  The
  resolver of \<open>git_rep_gen.py\<close> returns \<open>['main/master']\<close> when the branch listing
  fails in any way or no probed candidate answers 200; otherwise it returns the
  confirmed candidates.  The resolver of \<open>azure_commits_pdf.py\<close> returns
  \<open>['unknown']\<close> when the listing fails or names no head branch.
\<close>

theorem get_commit_branches_never_empty:
  "get_commit_branches refs probe \<noteq> []
   \<and> get_commit_branches_basic refs \<noteq> []
   \<and> ((\<forall>names. refs \<noteq> RefsResponse 200 (RefsValue names)) \<longrightarrow>
        get_commit_branches refs probe = [''main/master'']
        \<and> get_commit_branches_basic refs = [''unknown''])
   \<and> (confirmed probe 0 (snd (get_commit_branches_probes refs probe)) = [] \<longrightarrow>
        get_commit_branches refs probe = [''main/master''])
   \<and> ((\<forall>k b. probe k b \<noteq> Status 200) \<longrightarrow>
        get_commit_branches refs probe = [''main/master''])
   \<and> (get_commit_branches refs probe = [''main/master'']
        \<or> (\<exists>names. refs = RefsResponse 200 (RefsValue names)
              \<and> get_commit_branches refs probe =
                  confirmed probe 0 (snd (get_commit_branches_probes refs probe))
              \<and> set (get_commit_branches refs probe)
                  \<subseteq> set (branches_to_check (head_branches names))))
   \<and> (head_branches names = [] \<longrightarrow>
        get_commit_branches_basic (RefsResponse 200 (RefsValue names)) = [''unknown''])"
proof -
  have fail: "get_commit_branches refs probe = [''main/master'']
              \<and> get_commit_branches_basic refs = [''unknown'']"
    if "\<forall>names. refs \<noteq> RefsResponse 200 (RefsValue names)"
  proof -
    from that have "get_commit_branches_probes refs probe = ([''main/master''], [])"
      by (intro probes_of_failure) blast
    moreover from that have "get_commit_branches_basic refs = [''unknown'']"
      by (auto simp: get_commit_branches_basic_def
               split: refs_result.splits refs_body.splits)
    ultimately show ?thesis by (simp add: get_commit_branches_def)
  qed
  have ok: "get_commit_branches refs probe =
              (if confirmed probe 0 (snd (get_commit_branches_probes refs probe)) \<noteq> []
               then confirmed probe 0 (snd (get_commit_branches_probes refs probe))
               else [''main/master''])
            \<and> set (confirmed probe 0 (snd (get_commit_branches_probes refs probe)))
                \<subseteq> set (branches_to_check (head_branches ns))"
    if ns: "refs = RefsResponse 200 (RefsValue ns)" for ns
  proof -
    let ?cs = "branches_to_check (head_branches ns)"
    let ?r = "probe_loop probe 0 [] ?cs"
    from probe_loop_start [of probe ?cs]
    have f: "fst ?r = confirmed probe 0 (snd ?r)" and pre: "prefix (snd ?r) ?cs" by blast+
    have "set (confirmed probe 0 (snd ?r)) \<subseteq> set (snd ?r)" by (rule confirmed_subset)
    also have "\<dots> \<subseteq> set ?cs" using pre by (rule set_mono_prefix)
    finally show ?thesis
      using f by (simp add: ns get_commit_branches_def probes_of_refs_value Let_def)
  qed
  have basic: "get_commit_branches_basic refs \<noteq> []"
    by (simp add: get_commit_branches_basic_def Let_def
             split: refs_result.splits refs_body.splits)
  have c1: "get_commit_branches refs probe \<noteq> []"
  proof (cases "\<exists>ns. refs = RefsResponse 200 (RefsValue ns)")
    case True
    then obtain ns where "refs = RefsResponse 200 (RefsValue ns)" by blast
    from ok [OF this] show ?thesis by (auto split: if_splits)
  next
    case False
    with fail show ?thesis by simp
  qed
  have c4: "get_commit_branches refs probe = [''main/master'']"
    if e: "confirmed probe 0 (snd (get_commit_branches_probes refs probe)) = []"
  proof (cases "\<exists>ns. refs = RefsResponse 200 (RefsValue ns)")
    case True
    then obtain ns where "refs = RefsResponse 200 (RefsValue ns)" by blast
    from ok [OF this] e show ?thesis by simp
  next
    case False
    with fail show ?thesis by simp
  qed
  have c5: "get_commit_branches refs probe = [''main/master'']"
    if "\<forall>k b. probe k b \<noteq> Status 200"
  proof -
    from that have "confirmed probe 0 (snd (get_commit_branches_probes refs probe)) = []"
      by (intro confirmed_none) blast
    then show ?thesis by (rule c4)
  qed
  have c6: "get_commit_branches refs probe = [''main/master'']
        \<or> (\<exists>names. refs = RefsResponse 200 (RefsValue names)
              \<and> get_commit_branches refs probe =
                  confirmed probe 0 (snd (get_commit_branches_probes refs probe))
              \<and> set (get_commit_branches refs probe)
                  \<subseteq> set (branches_to_check (head_branches names)))"
  proof (cases "\<exists>ns. refs = RefsResponse 200 (RefsValue ns)")
    case True
    then obtain ns where ns: "refs = RefsResponse 200 (RefsValue ns)" by blast
    from ok [OF ns] ns show ?thesis
      by (cases "confirmed probe 0 (snd (get_commit_branches_probes refs probe)) = []") auto
  next
    case False
    with fail show ?thesis by simp
  qed
  have c7: "get_commit_branches_basic (RefsResponse 200 (RefsValue names)) = [''unknown'']"
    if "head_branches names = []"
    using that by (simp add: get_commit_branches_basic_def)
  from c1 basic fail c4 c5 c6 c7 show ?thesis by blast
qed

theorem get_commit_branches_never_empty_witness:
  "get_commit_branches RefsRaised (\<lambda>k b. Status 200) = [''main/master'']
   \<and> get_commit_branches_basic RefsRaised = [''unknown'']
   \<and> get_commit_branches (RefsResponse 200 (RefsValue [''refs/heads/main'', ''refs/heads/x'']))
        (\<lambda>k b. if b = ''x'' then Raised else Status 404) = [''main/master'']
   \<and> get_commit_branches_basic (RefsResponse 200 (RefsValue [''refs/tags/v1''])) = [''unknown'']
   \<and> get_commit_branches (RefsResponse 200 (RefsValue [''refs/heads/main'', ''refs/heads/x'']))
        (\<lambda>k b. if b = ''x'' then Raised else Status 200) = [''main'']"
proof -
  let ?names = "[''refs/heads/main'', ''refs/heads/x'']"
  let ?probe = "\<lambda>(k::nat) b. if b = ''x'' then Raised else Status 404"
  have a: "\<forall>names. RefsRaised \<noteq> RefsResponse 200 (RefsValue names)" by simp
  have b: "\<forall>k b. ?probe k b \<noteq> Status 200" by simp
  have h: "head_branches [''refs/tags/v1''] = []" by code_simp
  have g: "get_commit_branches (RefsResponse 200 (RefsValue ?names))
             (\<lambda>k b. if b = ''x'' then Raised else Status 200) = [''main'']"
    by code_simp
  from get_commit_branches_never_empty [of RefsRaised "\<lambda>k b. Status 200" "[''refs/tags/v1'']"]
       a h
  have "get_commit_branches RefsRaised (\<lambda>k b. Status 200) = [''main/master'']"
    and "get_commit_branches_basic RefsRaised = [''unknown'']"
    and "get_commit_branches_basic (RefsResponse 200 (RefsValue [''refs/tags/v1''])) = [''unknown'']"
    by blast+
  moreover from get_commit_branches_never_empty
      [of "RefsResponse 200 (RefsValue ?names)" ?probe "[]"] b
  have "get_commit_branches (RefsResponse 200 (RefsValue ?names)) ?probe = [''main/master'']"
    by blast
  ultimately show ?thesis using g by blast
qed


section \<open>Commit fetcher\<close>

lemma attach_branches_Inr:
  "attach_branches a skip org proj repo i cs = Inr cs' \<Longrightarrow>
     length cs' = length cs
     \<and> (\<forall>c\<in>set cs'. repository c = Some repo \<and> branches c \<noteq> None)"
proof (induction cs arbitrary: i cs')
  case Nil
  then show ?case by simp
next
  case (Cons c cs)
  from Cons.prems obtain bs rest where
    r: "attach_branches a skip org proj repo (Suc i) cs = Inr rest"
    and c': "cs' = (c\<lparr>repository := Some repo, organization := Some org,
                      project := Some proj, branches := Some bs\<rparr>) # rest"
    by (auto simp: Let_def split: sum.splits if_splits option.splits)
  from Cons.IH [OF r] c' show ?case by simp
qed

lemma attach_branches_missing_id:
  "\<not> skip \<Longrightarrow> \<exists>c\<in>set cs. commitId c = None \<Longrightarrow>
     attach_branches a skip org proj repo i cs = Inl KeyError"
proof (induction cs arbitrary: i)
  case Nil
  then show ?case by simp
next
  case (Cons c cs)
  show ?case
  proof (cases "commitId c")
    case None
    with Cons.prems(1) show ?thesis by simp
  next
    case (Some cid)
    with Cons.prems have "\<exists>c\<in>set cs. commitId c = None" by auto
    from Cons.IH [OF Cons.prems(1) this] Some Cons.prems(1) show ?thesis
      by (simp add: Let_def)
  qed
qed

lemma attach_branches_basic_Inr:
  "attach_branches_basic a org proj repo i cs = Inr cs' \<Longrightarrow>
     length cs' = length cs
     \<and> (\<forall>c\<in>set cs'. repository c = Some repo \<and> branches c \<noteq> None)"
proof (induction cs arbitrary: i cs')
  case Nil
  then show ?case by simp
next
  case (Cons c cs)
  from Cons.prems obtain rest where
    r: "attach_branches_basic a org proj repo (Suc i) cs = Inr rest"
    and c': "cs' = (c\<lparr>repository := Some repo, organization := Some org, project := Some proj,
                      branches := Some (get_commit_branches_basic (list_refs a i))\<rparr>) # rest"
    by (auto simp: Let_def split: sum.splits option.splits)
  from Cons.IH [OF r] c' show ?case by simp
qed

lemma attach_branches_basic_missing_id:
  "\<exists>c\<in>set cs. commitId c = None \<Longrightarrow>
     attach_branches_basic a org proj repo i cs = Inl KeyError"
proof (induction cs arbitrary: i)
  case Nil
  then show ?case by simp
next
  case (Cons c cs)
  show ?case
  proof (cases "commitId c")
    case None
    then show ?thesis by simp
  next
    case (Some cid)
    with Cons.prems have "\<exists>c\<in>set cs. commitId c = None" by auto
    from Cons.IH [OF this] Some show ?thesis
      by (simp add: Let_def)
  qed
qed

text \<open>
  Claim C9.  Whatever raises in the body of \<open>fetch_commits\<close>, the call returns the
  empty list: a URL that does not parse, a transport failure of the listing, a status
  from 400 to 599, a body that cannot be read, or a commit without identifier met in
  the loop after other commits were given their branches.  A result that is not empty
  is the whole list: one commit for every commit that passed the filter, each with its
  repository and branch list.  The same holds for \<open>fetch_commits\<close> of
  \<open>azure_commits_pdf.py\<close>.
\<close>

theorem fetch_commits_all_or_nothing:
  "(fetch_commits_try a url skip f = Inl e \<longrightarrow> fetch_commits a url skip f = [])
   \<and> (parse_repo_url url = Inl e \<longrightarrow>
        fetch_commits a url skip f = [] \<and> fetch_commits_basic a url = [])
   \<and> (list_commits a = CommitsRaised \<longrightarrow>
        fetch_commits a url skip f = [] \<and> fetch_commits_basic a url = [])
   \<and> (list_commits a = CommitsResponse code body \<and> 400 \<le> code \<and> code < 600 \<longrightarrow>
        fetch_commits a url skip f = [] \<and> fetch_commits_basic a url = [])
   \<and> (list_commits a = CommitsResponse code CommitsMalformed \<longrightarrow>
        fetch_commits a url skip f = [] \<and> fetch_commits_basic a url = [])
   \<and> (list_commits a = CommitsResponse code (CommitsValue cs) \<and> \<not> skip
        \<and> (\<exists>c\<in>set (client_side_filter f cs). commitId c = None) \<longrightarrow>
        fetch_commits a url skip f = [])
   \<and> (list_commits a = CommitsResponse code (CommitsValue cs)
        \<and> (\<exists>c\<in>set cs. commitId c = None) \<longrightarrow>
        fetch_commits_basic a url = [])
   \<and> (fetch_commits a url skip f \<noteq> [] \<longrightarrow>
        (\<exists>org proj repo code' cs'.
           parse_repo_url url = Inr (org, proj, repo)
           \<and> list_commits a = CommitsResponse code' (CommitsValue cs')
           \<and> length (fetch_commits a url skip f) = length (client_side_filter f cs')
           \<and> (\<forall>c\<in>set (fetch_commits a url skip f).
                 repository c = Some repo \<and> branches c \<noteq> None)))
   \<and> (fetch_commits_basic a url \<noteq> [] \<longrightarrow>
        (\<exists>org proj repo code' cs'.
           parse_repo_url url = Inr (org, proj, repo)
           \<and> list_commits a = CommitsResponse code' (CommitsValue cs')
           \<and> length (fetch_commits_basic a url) = length cs'
           \<and> (\<forall>c\<in>set (fetch_commits_basic a url).
                 repository c = Some repo \<and> branches c \<noteq> None)))"
proof -
  have c1: "fetch_commits a url skip f = []" if "fetch_commits_try a url skip f = Inl e"
    using that by (simp add: fetch_commits_def)
  have c2: "fetch_commits a url skip f = [] \<and> fetch_commits_basic a url = []"
    if "parse_repo_url url = Inl e"
    using that
    by (simp add: fetch_commits_def fetch_commits_try_def
                  fetch_commits_basic_def fetch_commits_basic_try_def)
  have c3: "fetch_commits a url skip f = [] \<and> fetch_commits_basic a url = []"
    if "list_commits a = CommitsRaised"
    using that
    by (simp add: fetch_commits_def fetch_commits_try_def
                  fetch_commits_basic_def fetch_commits_basic_try_def
             split: sum.splits prod.splits)
  have c4: "fetch_commits a url skip f = [] \<and> fetch_commits_basic a url = []"
    if "list_commits a = CommitsResponse code body \<and> 400 \<le> code \<and> code < 600"
    using that
    by (simp add: fetch_commits_def fetch_commits_try_def
                  fetch_commits_basic_def fetch_commits_basic_try_def
             split: sum.splits prod.splits)
  have c5: "fetch_commits a url skip f = [] \<and> fetch_commits_basic a url = []"
    if "list_commits a = CommitsResponse code CommitsMalformed"
    using that
    by (simp add: fetch_commits_def fetch_commits_try_def
                  fetch_commits_basic_def fetch_commits_basic_try_def
             split: sum.splits prod.splits)
  have c6: "fetch_commits a url skip f = []"
    if h: "list_commits a = CommitsResponse code (CommitsValue cs) \<and> \<not> skip
        \<and> (\<exists>c\<in>set (client_side_filter f cs). commitId c = None)"
  proof -
    from h have "attach_branches a skip org proj repo 0 (client_side_filter f cs) = Inl KeyError"
      for org proj repo
      by (intro attach_branches_missing_id) auto
    with h show ?thesis
      by (simp add: fetch_commits_def fetch_commits_try_def split: sum.splits prod.splits)
  qed
  have c7: "fetch_commits_basic a url = []"
    if h: "list_commits a = CommitsResponse code (CommitsValue cs)
        \<and> (\<exists>c\<in>set cs. commitId c = None)"
  proof -
    from h have "attach_branches_basic a org proj repo 0 cs = Inl KeyError"
      for org proj repo
      by (intro attach_branches_basic_missing_id) auto
    with h show ?thesis
      by (simp add: fetch_commits_basic_def fetch_commits_basic_try_def
               split: sum.splits prod.splits)
  qed
  have c8: "\<exists>org proj repo code' cs'.
           parse_repo_url url = Inr (org, proj, repo)
           \<and> list_commits a = CommitsResponse code' (CommitsValue cs')
           \<and> length (fetch_commits a url skip f) = length (client_side_filter f cs')
           \<and> (\<forall>c\<in>set (fetch_commits a url skip f).
                 repository c = Some repo \<and> branches c \<noteq> None)"
    if ne: "fetch_commits a url skip f \<noteq> []"
  proof -
    from ne obtain res where t: "fetch_commits_try a url skip f = Inr res"
      and r: "fetch_commits a url skip f = res"
      by (cases "fetch_commits_try a url skip f") (auto simp: fetch_commits_def)
    from t obtain org proj repo where p: "parse_repo_url url = Inr (org, proj, repo)"
      by (auto simp: fetch_commits_try_def split: sum.splits)
    from t p obtain code' cs' where l: "list_commits a = CommitsResponse code' (CommitsValue cs')"
      and at: "attach_branches a skip org proj repo 0 (client_side_filter f cs') = Inr res"
      by (auto simp: fetch_commits_try_def
               split: commits_result.splits commits_body.splits if_splits)
    from attach_branches_Inr [OF at] p l r show ?thesis by blast
  qed
  have c9: "\<exists>org proj repo code' cs'.
           parse_repo_url url = Inr (org, proj, repo)
           \<and> list_commits a = CommitsResponse code' (CommitsValue cs')
           \<and> length (fetch_commits_basic a url) = length cs'
           \<and> (\<forall>c\<in>set (fetch_commits_basic a url).
                 repository c = Some repo \<and> branches c \<noteq> None)"
    if ne: "fetch_commits_basic a url \<noteq> []"
  proof -
    from ne obtain res where t: "fetch_commits_basic_try a url = Inr res"
      and r: "fetch_commits_basic a url = res"
      by (cases "fetch_commits_basic_try a url") (auto simp: fetch_commits_basic_def)
    from t obtain org proj repo where p: "parse_repo_url url = Inr (org, proj, repo)"
      by (auto simp: fetch_commits_basic_try_def split: sum.splits)
    from t p obtain code' cs' where l: "list_commits a = CommitsResponse code' (CommitsValue cs')"
      and at: "attach_branches_basic a org proj repo 0 cs' = Inr res"
      by (auto simp: fetch_commits_basic_try_def
               split: commits_result.splits commits_body.splits if_splits)
    from attach_branches_basic_Inr [OF at] p l r show ?thesis by blast
  qed
  from c1 c2 c3 c4 c5 c6 c7 c8 c9 show ?thesis by blast
qed


theorem fetch_commits_all_or_nothing_witness:
  "fetch_commits
     \<lparr>list_commits = CommitsResponse 200 (CommitsValue
        [listed_commit ''aaaa1111'' ''Alice'' ''alice@example.com'' ''2024-01-02T10:00:00Z'' ''one'',
         (listed_commit [] ''Bob'' ''bob@example.com'' ''2024-01-02T11:00:00Z'' ''two'')
           \<lparr>commitId := None\<rparr>]),
      list_refs = (\<lambda>i. RefsRaised), probe_commit = (\<lambda>i k b. Raised)\<rparr>
     ''https://dev.azure.com/org/proj/_git/repo'' False None = []
   \<and> fetch_commits
     \<lparr>list_commits = CommitsRaised,
      list_refs = (\<lambda>i. RefsRaised), probe_commit = (\<lambda>i k b. Raised)\<rparr>
     ''https://dev.azure.com/org/proj/_git/repo'' False None = []
   \<and> fetch_commits
     \<lparr>list_commits = CommitsResponse 503 CommitsMalformed,
      list_refs = (\<lambda>i. RefsRaised), probe_commit = (\<lambda>i k b. Raised)\<rparr>
     ''https://dev.azure.com/org/proj/_git/repo'' False None = []
   \<and> length (fetch_commits
     \<lparr>list_commits = CommitsResponse 200 (CommitsValue
        [listed_commit ''aaaa1111'' ''Alice'' ''alice@example.com'' ''2024-01-02T10:00:00Z'' ''one'',
         listed_commit ''bbbb2222'' ''Bob'' ''bob@example.com'' ''2024-01-02T11:00:00Z'' ''two'']),
      list_refs = (\<lambda>i. RefsRaised), probe_commit = (\<lambda>i k b. Raised)\<rparr>
     ''https://dev.azure.com/org/proj/_git/repo'' False None) = 2"
proof -
  let ?url = "''https://dev.azure.com/org/proj/_git/repo''"
  let ?c1 = "listed_commit ''aaaa1111'' ''Alice'' ''alice@example.com'' ''2024-01-02T10:00:00Z'' ''one''"
  let ?c2 = "(listed_commit [] ''Bob'' ''bob@example.com'' ''2024-01-02T11:00:00Z'' ''two'')
               \<lparr>commitId := None\<rparr>"
  let ?c3 = "listed_commit ''bbbb2222'' ''Bob'' ''bob@example.com'' ''2024-01-02T11:00:00Z'' ''two''"
  let ?A1 = "\<lparr>list_commits = CommitsResponse 200 (CommitsValue [?c1, ?c2]),
              list_refs = (\<lambda>i. RefsRaised), probe_commit = (\<lambda>i k b. Raised)\<rparr>"
  let ?A2 = "\<lparr>list_commits = CommitsRaised,
              list_refs = (\<lambda>i. RefsRaised), probe_commit = (\<lambda>i k b. Raised)\<rparr>"
  let ?A3 = "\<lparr>list_commits = CommitsResponse 503 CommitsMalformed,
              list_refs = (\<lambda>i. RefsRaised), probe_commit = (\<lambda>i k b. Raised)\<rparr>"
  let ?A4 = "\<lparr>list_commits = CommitsResponse 200 (CommitsValue [?c1, ?c3]),
              list_refs = (\<lambda>i. RefsRaised), probe_commit = (\<lambda>i k b. Raised)\<rparr>"
  have h1: "list_commits ?A1 = CommitsResponse 200 (CommitsValue [?c1, ?c2]) \<and> \<not> False
        \<and> (\<exists>c\<in>set (client_side_filter None [?c1, ?c2]). commitId c = None)"
    by (simp add: client_side_filter_def is_set_def)
  from fetch_commits_all_or_nothing [of ?A1 ?url False None undefined 200 undefined "[?c1, ?c2]"] h1
  have r1: "fetch_commits ?A1 ?url False None = []" by blast
  have h2: "list_commits ?A2 = CommitsRaised" by simp
  from fetch_commits_all_or_nothing [of ?A2 ?url False None] h2
  have r2: "fetch_commits ?A2 ?url False None = []" by blast
  have h3: "list_commits ?A3 = CommitsResponse 503 CommitsMalformed \<and> (400::nat) \<le> 503
            \<and> (503::nat) < 600"
    by simp
  from fetch_commits_all_or_nothing [of ?A3 ?url False None undefined 503 CommitsMalformed] h3
  have r3: "fetch_commits ?A3 ?url False None = []" by blast
  have ne: "fetch_commits ?A4 ?url False None \<noteq> []" by code_simp
  from fetch_commits_all_or_nothing [of ?A4 ?url False None] ne
  obtain code' cs' where "list_commits ?A4 = CommitsResponse code' (CommitsValue cs')"
    and "length (fetch_commits ?A4 ?url False None) = length (client_side_filter None cs')"
    by blast
  then have r4: "length (fetch_commits ?A4 ?url False None) = 2"
    by (auto simp: client_side_filter_def is_set_def)
  from r1 r2 r3 r4 show ?thesis by blast
qed


section \<open>Aggregator\<close>

lemma map_of_modify:
  "map_of (modify dflt k f m) = (map_of m)(k \<mapsto> f (lookup dflt m k))"
  by (induction m) (auto simp: lookup_def fun_eq_iff)

lemma lookup_modify:
  "lookup dflt (modify dflt k f m) k' =
     (if k' = k then f (lookup dflt m k) else lookup dflt m k')"
  by (simp add: lookup_def map_of_modify)

lemma keys_modify: "set (keys (modify dflt k f m)) = insert k (set (keys m))"
proof -
  have "set (keys m') = dom (map_of m')" for m' :: "'a dict"
    by (simp add: keys_def dom_map_of_conv_image_fst)
  then show ?thesis by (simp add: map_of_modify)
qed

lemma distinct_keys_modify:
  "distinct (keys m) \<Longrightarrow> distinct (keys (modify dflt k f m))"
proof (induction m)
  case Nil
  show ?case by (simp add: keys_def)
next
  case (Cons a m)
  obtain k' v where a: "a = (k', v)" by (cases a)
  from Cons.prems have d: "distinct (keys m)" and n: "k' \<notin> set (keys m)"
    by (auto simp: keys_def a)
  show ?case
  proof (cases "k' = k")
    case True
    with Cons.prems show ?thesis by (simp add: keys_def a)
  next
    case False
    from Cons.IH [OF d] have "distinct (keys (modify dflt k f m))" .
    moreover from n False have "k' \<notin> set (keys (modify dflt k f m))"
      by (simp add: keys_modify)
    ultimately show ?thesis using False by (simp add: keys_def a)
  qed
qed

lemma set_modify:
  "(k', v') \<in> set (modify dflt k f m) \<Longrightarrow>
     (k', v') \<in> set m \<or> (k' = k \<and> (v' = f dflt \<or> (\<exists>v. (k, v) \<in> set m \<and> v' = f v)))"
  by (induction m) (auto split: if_splits)

lemma leaf_append_commit:
  "leaf (append_commit d r b c organized) d' r' b' =
     (if d' = d \<and> r' = r \<and> b' = b then leaf organized d r b @ [c]
      else leaf organized d' r' b')"
  by (simp add: leaf_def append_commit_def lookup_modify)

lemma leaf_append_to_branches:
  "leaf (append_to_branches d r c bs organized) d' r' b' =
     leaf organized d' r' b' @
       (if d' = d \<and> r' = r then replicate (count_list bs b') c else [])"
proof (induction bs arbitrary: organized)
  case Nil
  show ?case by simp
next
  case (Cons b bs)
  have "leaf (append_to_branches d r c (b # bs) organized) d' r' b' =
          leaf (append_commit d r b c organized) d' r' b' @
            (if d' = d \<and> r' = r then replicate (count_list bs b') c else [])"
    by (simp add: Cons.IH)
  also have "\<dots> = leaf organized d' r' b' @
       (if d' = d \<and> r' = r then replicate (count_list (b # bs) b') c else [])"
    by (auto simp: leaf_append_commit replicate_app_Cons_same)
  finally show ?case .
qed

lemma organize_loop_leaf:
  "organize_loop fromiso organized cs = Inr organized' \<Longrightarrow>
     leaf organized' d r b =
       leaf organized d r b @
       concat (map (\<lambda>c. replicate (count_list (branches_of c) b) c)
         (filter (\<lambda>c. date_key fromiso c = Some d \<and> repository c = Some r) cs))"
proof (induction cs arbitrary: organized)
  case Nil
  then show ?case by simp
next
  case (Cons c cs)
  from Cons.prems obtain t rn where
    t: "commit_datetime fromiso c = Inr t" and rn: "repository c = Some rn"
    and rest: "organize_loop fromiso
                 (append_to_branches (ymd t) rn c (branches_of c) organized) cs = Inr organized'"
    by (auto split: sum.splits option.splits)
  from t have dk: "date_key fromiso c = Some (ymd t)" by (simp add: date_key_def)
  from Cons.IH [OF rest] show ?case
    by (auto simp: leaf_append_to_branches dk rn)
qed

lemma organize_loop_fails_iff:
  "isl (organize_loop fromiso organized cs) \<longleftrightarrow>
     (\<exists>c\<in>set cs. date_key fromiso c = None \<or> repository c = None)"
proof (induction cs arbitrary: organized)
  case Nil
  show ?case by simp
next
  case (Cons c cs)
  show ?case
    by (auto simp: Cons.IH date_key_def split: sum.splits option.splits)
qed


lemma modify_all:
  assumes "\<forall>(k, v)\<in>set m. P v" "P (f dflt)" "\<And>v. P v \<Longrightarrow> P (f v)"
  shows "\<forall>(k, v)\<in>set (modify dflt k0 f m). P v"
  using assms by (auto dest!: set_modify)

lemma modify_not_Nil: "modify dflt k f m \<noteq> []"
  by (cases m) (auto split: if_splits)

lemma tight_append_commit: "tight organized \<Longrightarrow> tight (append_commit d r b c organized)"
proof -
  assume t: "tight organized"
  let ?P3 = "\<lambda>l::commit list. l \<noteq> []"
  let ?P2 = "\<lambda>bs::commit list dict. bs \<noteq> [] \<and> (\<forall>(b, l)\<in>set bs. ?P3 l)"
  let ?P1 = "\<lambda>repos::commit list dict dict. repos \<noteq> [] \<and> (\<forall>(r, bs)\<in>set repos. ?P2 bs)"
  let ?f3 = "\<lambda>l. l @ [c]"
  let ?f2 = "modify [] b ?f3"
  let ?f1 = "modify [] r ?f2"
  have p2: "?P2 (?f2 v)" if "\<forall>(b, l)\<in>set v. ?P3 l" for v
  proof -
    from that have "\<forall>(k, l)\<in>set (modify [] b ?f3 v). ?P3 l"
      by (intro modify_all) auto
    then show ?thesis by (simp add: modify_not_Nil)
  qed
  have p1: "?P1 (?f1 v)" if "\<forall>(r, bs)\<in>set v. ?P2 bs" for v
  proof -
    from that have "\<forall>(k, bs)\<in>set (modify [] r ?f2 v). ?P2 bs"
    proof (intro modify_all)
      show "?P2 (?f2 [])" by (rule p2) simp
      show "?P2 (?f2 v')" if "?P2 v'" for v' using that by (intro p2) blast
    qed
    then show ?thesis by (simp add: modify_not_Nil)
  qed
  from t have "\<forall>(d, repos)\<in>set organized. ?P1 repos" by (simp add: tight_def)
  then have "\<forall>(k, repos)\<in>set (modify [] d ?f1 organized). ?P1 repos"
  proof (intro modify_all)
    show "?P1 (?f1 [])" by (rule p1) simp
    show "?P1 (?f1 v')" if "?P1 v'" for v' using that by (intro p1) blast
  qed
  then show ?thesis by (simp add: tight_def append_commit_def)
qed

lemma tight_append_to_branches:
  "tight organized \<Longrightarrow> tight (append_to_branches d r c bs organized)"
  by (induction bs arbitrary: organized) (simp_all add: tight_append_commit)

lemma tight_organize_loop:
  "tight organized \<Longrightarrow> organize_loop fromiso organized cs = Inr organized' \<Longrightarrow> tight organized'"
proof (induction cs arbitrary: organized)
  case Nil
  then show ?case by simp
next
  case (Cons c cs)
  from Cons.prems(2) obtain t :: datetime and rn where
    rest: "organize_loop fromiso
             (append_to_branches (ymd t) rn c (branches_of c) organized) cs = Inr organized'"
    by (auto split: sum.splits option.splits)
  from Cons.IH [OF tight_append_to_branches [OF Cons.prems(1)] rest] show ?case .
qed

lemma wf_append_commit: "wf_report organized \<Longrightarrow> wf_report (append_commit d r b c organized)"
proof -
  assume w: "wf_report organized"
  let ?P2 = "\<lambda>bs::commit list dict. distinct (keys bs)"
  let ?P1 = "\<lambda>repos::commit list dict dict. distinct (keys repos) \<and> (\<forall>(r, bs)\<in>set repos. ?P2 bs)"
  let ?f2 = "modify [] b (\<lambda>l. l @ [c])"
  let ?f1 = "modify [] r ?f2"
  have p1: "?P1 (?f1 v)" if "?P1 v" for v
  proof -
    from that have "\<forall>(k, bs)\<in>set (modify [] r ?f2 v). ?P2 bs"
      by (intro modify_all) (auto simp: distinct_keys_modify [unfolded keys_def] keys_def)
    with that show ?thesis by (simp add: distinct_keys_modify)
  qed
  from w have "\<forall>(d, repos)\<in>set organized. ?P1 repos" by (simp add: wf_report_def)
  then have "\<forall>(k, repos)\<in>set (modify [] d ?f1 organized). ?P1 repos"
  proof (intro modify_all)
    show "?P1 (?f1 [])" by (rule p1) (simp add: keys_def)
    show "?P1 (?f1 v')" if "?P1 v'" for v' using that by (rule p1)
  qed
  moreover from w have "distinct (keys (modify [] d ?f1 organized))"
    by (simp add: wf_report_def distinct_keys_modify)
  ultimately show ?thesis by (simp add: wf_report_def append_commit_def)
qed

lemma wf_append_to_branches:
  "wf_report organized \<Longrightarrow> wf_report (append_to_branches d r c bs organized)"
  by (induction bs arbitrary: organized) (simp_all add: wf_append_commit)

lemma wf_organize_loop:
  "wf_report organized \<Longrightarrow> organize_loop fromiso organized cs = Inr organized'
     \<Longrightarrow> wf_report organized'"
proof (induction cs arbitrary: organized)
  case Nil
  then show ?case by simp
next
  case (Cons c cs)
  from Cons.prems(2) obtain t :: datetime and rn where
    rest: "organize_loop fromiso
             (append_to_branches (ymd t) rn c (branches_of c) organized) cs = Inr organized'"
    by (auto split: sum.splits option.splits)
  from Cons.IH [OF wf_append_to_branches [OF Cons.prems(1)] rest] show ?case .
qed


lemma leaf_Nil: "leaf [] d r b = []"
  by (simp add: leaf_def lookup_def)

lemma tight_Nil: "tight []"
  by (simp add: tight_def)

lemma wf_report_Nil: "wf_report []"
  by (simp add: wf_report_def keys_def)

lemma organize_leaf:
  "organize_commits_by_date_and_repo fromiso cs = Inr organized \<Longrightarrow>
     leaf organized d r b =
       concat (map (\<lambda>c. replicate (count_list (branches_of c) b) c)
         (filter (\<lambda>c. date_key fromiso c = Some d \<and> repository c = Some r) cs))"
  unfolding organize_commits_by_date_and_repo_def
  by (drule organize_loop_leaf [where d = d and r = r and b = b]) (simp add: leaf_Nil)

lemma organize_member:
  "organize_commits_by_date_and_repo fromiso cs = Inr organized \<Longrightarrow>
     c \<in> set (leaf organized d r b) \<longleftrightarrow>
       c \<in> set cs \<and> date_key fromiso c = Some d \<and> repository c = Some r
       \<and> b \<in> set (branches_of c)"
  by (auto simp: organize_leaf count_list_0_iff)

lemma organize_mset:
  "organize_commits_by_date_and_repo fromiso cs = Inr organized \<Longrightarrow>
     mset (leaf organized d r b) =
       (\<Sum>c\<in>#filter_mset (\<lambda>c. date_key fromiso c = Some d \<and> repository c = Some r) (mset cs).
          replicate_mset (count_list (branches_of c) b) c)"
proof -
  have "mset (concat (map (\<lambda>c. replicate (count_list (branches_of c) b) c) xs)) =
        (\<Sum>c\<in>#mset xs. replicate_mset (count_list (branches_of c) b) c)" for xs
    by (induction xs) simp_all
  then show "organize_commits_by_date_and_repo fromiso cs = Inr organized \<Longrightarrow> ?thesis"
    by (simp add: organize_leaf)
qed


lemma view_leaf_level:
  assumes "\<forall>(b, l)\<in>set bs. l \<noteq> []"
  shows "map_option mset (map_of bs b) =
           (if lookup [] bs b = [] then None else Some (mset (lookup [] bs b)))"
proof (cases "map_of bs b")
  case None
  then show ?thesis by (simp add: lookup_def)
next
  case (Some l)
  then have "(b, l) \<in> set bs" by (rule map_of_SomeD)
  with assms have "l \<noteq> []" by auto
  with Some show ?thesis by (simp add: lookup_def)
qed

lemma leaf_level_nonempty:
  assumes "\<forall>(b, l)\<in>set bs. l \<noteq> []" "bs \<noteq> []"
  shows "\<exists>b. lookup [] bs b \<noteq> []"
proof -
  from assms(2) obtain b l rest where bs: "bs = (b, l) # rest" by (cases bs) auto
  with assms(1) have "l \<noteq> []" by auto
  with bs have "lookup [] bs b \<noteq> []" by (simp add: lookup_def)
  then show ?thesis ..
qed

lemma view_repo_level:
  assumes "\<forall>(r, bs)\<in>set repos. bs \<noteq> [] \<and> (\<forall>(b, l)\<in>set bs. l \<noteq> [])"
  shows "map_option (\<lambda>bs. (\<lambda>b. map_option mset (map_of bs b))) (map_of repos r) =
           (if \<forall>b. lookup [] (lookup [] repos r) b = [] then None
            else Some (\<lambda>b. if lookup [] (lookup [] repos r) b = [] then None
                            else Some (mset (lookup [] (lookup [] repos r) b))))"
proof (cases "map_of repos r")
  case None
  then show ?thesis by (simp add: lookup_def)
next
  case (Some bs)
  then have "(r, bs) \<in> set repos" by (rule map_of_SomeD)
  with assms have ne: "bs \<noteq> []" and t: "\<forall>(b, l)\<in>set bs. l \<noteq> []" by auto
  from Some have l: "lookup [] repos r = bs" by (simp add: lookup_def)
  from leaf_level_nonempty [OF t ne] have "\<not> (\<forall>b. lookup [] bs b = [])" by blast
  moreover have "(\<lambda>b. map_option mset (map_of bs b)) =
        (\<lambda>b. if lookup [] bs b = [] then None else Some (mset (lookup [] bs b)))"
    by (rule ext) (rule view_leaf_level [OF t])
  ultimately show ?thesis unfolding Some l by simp
qed

lemma repo_level_nonempty:
  assumes "\<forall>(r, bs)\<in>set repos. bs \<noteq> [] \<and> (\<forall>(b, l)\<in>set bs. l \<noteq> [])" "repos \<noteq> []"
  shows "\<exists>r b. lookup [] (lookup [] repos r) b \<noteq> []"
proof -
  from assms(2) obtain r bs rest where repos: "repos = (r, bs) # rest" by (cases repos) auto
  with assms(1) have ne: "bs \<noteq> []" and t: "\<forall>(b, l)\<in>set bs. l \<noteq> []" by auto
  from repos have "lookup [] repos r = bs" by (simp add: lookup_def)
  with leaf_level_nonempty [OF t ne] show ?thesis by metis
qed


lemma report_view_tight:
  assumes "tight organized"
  shows "report_view organized d =
           (if \<forall>r b. leaf organized d r b = [] then None
            else Some (\<lambda>r. if \<forall>b. leaf organized d r b = [] then None
                            else Some (\<lambda>b. if leaf organized d r b = [] then None
                                            else Some (mset (leaf organized d r b)))))"
proof (cases "map_of organized d")
  case None
  then show ?thesis by (simp add: report_view_def leaf_def lookup_def)
next
  case (Some repos)
  then have "(d, repos) \<in> set organized" by (rule map_of_SomeD)
  then have "case (d, repos) of (d, repos) \<Rightarrow> repos \<noteq> [] \<and>
      (\<forall>(r, bs)\<in>set repos. bs \<noteq> [] \<and> (\<forall>(b, l)\<in>set bs. l \<noteq> []))"
    using assms unfolding tight_def by (rule_tac bspec)
  then have "repos \<noteq> [] \<and>
      (\<forall>(r, bs)\<in>set repos. bs \<noteq> [] \<and> (\<forall>(b, l)\<in>set bs. l \<noteq> []))"
    by simp
  then have ne: "repos \<noteq> []"
    and t: "\<forall>(r, bs)\<in>set repos. bs \<noteq> [] \<and> (\<forall>(b, l)\<in>set bs. l \<noteq> [])"
    by blast+
  from Some have l: "lookup [] organized d = repos" by (simp add: lookup_def)
  from repo_level_nonempty [OF t ne] have "\<not> (\<forall>r b. leaf organized d r b = [])"
    by (simp add: leaf_def l)
  moreover have "(\<lambda>r. map_option (\<lambda>bs. (\<lambda>b. map_option mset (map_of bs b))) (map_of repos r)) =
       (\<lambda>r. if \<forall>b. leaf organized d r b = [] then None
             else Some (\<lambda>b. if leaf organized d r b = [] then None
                             else Some (mset (leaf organized d r b))))"
    unfolding leaf_def l by (rule ext) (rule view_repo_level [OF t])
  ultimately show ?thesis by (simp add: report_view_def Some)
qed


lemma report_view_cong:
  assumes "tight o1" "tight o2" "\<And>d r b. mset (leaf o1 d r b) = mset (leaf o2 d r b)"
  shows "report_view o1 = report_view o2"
proof -
  have e: "leaf o1 d r b = [] \<longleftrightarrow> leaf o2 d r b = []" for d r b
    using assms(3) [of d r b] by (metis mset_zero_iff)
  have "report_view o1 d = report_view o2 d" for d
    unfolding report_view_tight [OF assms(1)] report_view_tight [OF assms(2)] e assms(3)
    by (rule refl)
  then show ?thesis by (rule ext)
qed

text \<open>
  Claim C6.  The groupings of a commit list and of any permutation of it are the same
  mapping of mappings of mappings, the leaf lists compared as multisets: both raise,
  or both return and the two reports have the same view.
\<close>

theorem organize_order_independent:
  assumes "mset cs = mset cs'"
  shows "map_sum (\<lambda>e. ()) report_view (organize_commits_by_date_and_repo fromiso cs) =
         map_sum (\<lambda>e. ()) report_view (organize_commits_by_date_and_repo fromiso cs')"
proof -
  from assms have s: "set cs = set cs'" by (rule mset_eq_setD)
  have f: "isl (organize_commits_by_date_and_repo fromiso cs) \<longleftrightarrow>
           isl (organize_commits_by_date_and_repo fromiso cs')"
    by (simp add: organize_commits_by_date_and_repo_def organize_loop_fails_iff s)
  show ?thesis
  proof (cases "organize_commits_by_date_and_repo fromiso cs")
    case (Inl e)
    with f obtain e' where "organize_commits_by_date_and_repo fromiso cs' = Inl e'"
      by (cases "organize_commits_by_date_and_repo fromiso cs'") auto
    with Inl show ?thesis by simp
  next
    case (Inr o1)
    with f obtain o2 where o2: "organize_commits_by_date_and_repo fromiso cs' = Inr o2"
      by (cases "organize_commits_by_date_and_repo fromiso cs'") auto
    have t1: "tight o1"
      using Inr tight_organize_loop [OF tight_Nil]
      by (simp add: organize_commits_by_date_and_repo_def)
    have t2: "tight o2"
      using o2 tight_organize_loop [OF tight_Nil]
      by (simp add: organize_commits_by_date_and_repo_def)
    have "mset (leaf o1 d r b) = mset (leaf o2 d r b)" for d r b
      by (simp add: organize_mset [OF Inr] organize_mset [OF o2] assms)
    with t1 t2 have "report_view o1 = report_view o2" by (rule report_view_cong)
    with Inr o2 show ?thesis by simp
  qed
qed


theorem organize_order_independent_witness:
  "map_sum (\<lambda>e. ()) report_view
     (organize_commits_by_date_and_repo example_fromiso
        [fetched_commit ''aaaa1111'' ''2024-01-02T10:00:00Z'' ''repo'' [''main'', ''dev''],
         fetched_commit ''bbbb2222'' ''2024-01-01T23:00:00Z'' ''repo'' [''main'']]) =
   map_sum (\<lambda>e. ()) report_view
     (organize_commits_by_date_and_repo example_fromiso
        [fetched_commit ''bbbb2222'' ''2024-01-01T23:00:00Z'' ''repo'' [''main''],
         fetched_commit ''aaaa1111'' ''2024-01-02T10:00:00Z'' ''repo'' [''main'', ''dev'']])
   \<and> \<not> isl (organize_commits_by_date_and_repo example_fromiso
        [fetched_commit ''aaaa1111'' ''2024-01-02T10:00:00Z'' ''repo'' [''main'', ''dev''],
         fetched_commit ''bbbb2222'' ''2024-01-01T23:00:00Z'' ''repo'' [''main'']])"
proof -
  let ?c1 = "fetched_commit ''aaaa1111'' ''2024-01-02T10:00:00Z'' ''repo'' [''main'', ''dev'']"
  let ?c2 = "fetched_commit ''bbbb2222'' ''2024-01-01T23:00:00Z'' ''repo'' [''main'']"
  have m: "mset [?c1, ?c2] = mset [?c2, ?c1]" by (simp add: add_mset_commute)
  have ok: "\<not> isl (organize_commits_by_date_and_repo example_fromiso [?c1, ?c2])"
    by code_simp
  from organize_order_independent [OF m, of example_fromiso] ok show ?thesis by blast
qed


lemma sum_modify:
  assumes "h dflt = 0" "\<And>v. h (f v) = Suc (h v)"
  shows "sum_list (map (\<lambda>(k, v). h v) (modify dflt k0 f m)) =
         Suc (sum_list (map (\<lambda>(k, v). h v) m))"
  using assms by (induction m) auto

lemma total_commits_nested:
  "total_commits organized =
     sum_list (map (\<lambda>(d, repos).
       sum_list (map (\<lambda>(r, bs). sum_list (map (\<lambda>(b, l). length l) bs)) repos)) organized)"
proof -
  have inner: "sum_list (concat (map (\<lambda>(r, bs). map (\<lambda>(b, l). length l) bs) repos)) =
        sum_list (map (\<lambda>(r, bs). sum_list (map (\<lambda>(b, l). length l) bs)) repos)"
    for repos :: "commit list dict dict"
    by (induction repos) auto
  show ?thesis
    unfolding total_commits_def
    by (induction organized) (auto simp: inner)
qed

lemma total_append_commit:
  "total_commits (append_commit d r b c organized) = Suc (total_commits organized)"
proof -
  let ?h3 = "\<lambda>l::commit list. length l"
  let ?h2 = "\<lambda>bs::commit list dict. sum_list (map (\<lambda>(b, l). ?h3 l) bs)"
  let ?h1 = "\<lambda>repos::commit list dict dict. sum_list (map (\<lambda>(r, bs). ?h2 bs) repos)"
  have s2: "?h2 (modify [] b (\<lambda>l. l @ [c]) v) = Suc (?h2 v)" for v
    by (rule sum_modify) simp_all
  have s1: "?h1 (modify [] r (modify [] b (\<lambda>l. l @ [c])) v) = Suc (?h1 v)" for v
    by (rule sum_modify) (simp_all add: s2)
  have "sum_list (map (\<lambda>(d, repos). ?h1 repos)
          (modify [] d (modify [] r (modify [] b (\<lambda>l. l @ [c]))) organized)) =
        Suc (sum_list (map (\<lambda>(d, repos). ?h1 repos) organized))"
    by (rule sum_modify) (simp_all add: s1)
  then show ?thesis by (simp add: total_commits_nested append_commit_def)
qed

lemma total_append_to_branches:
  "total_commits (append_to_branches d r c bs organized) = total_commits organized + length bs"
  by (induction bs arbitrary: organized) (simp_all add: total_append_commit)

lemma total_organize_loop:
  "organize_loop fromiso organized cs = Inr organized' \<Longrightarrow>
     total_commits organized' =
       total_commits organized + sum_list (map (\<lambda>c. length (branches_of c)) cs)"
proof (induction cs arbitrary: organized)
  case Nil
  then show ?case by simp
next
  case (Cons c cs)
  from Cons.prems obtain t :: datetime and rn where
    rest: "organize_loop fromiso
             (append_to_branches (ymd t) rn c (branches_of c) organized) cs = Inr organized'"
    by (auto split: sum.splits option.splits)
  from Cons.IH [OF rest] show ?case by (simp add: total_append_to_branches)
qed

lemma distinct_confirmed: "distinct bs \<Longrightarrow> distinct (confirmed probe k bs)"
proof (induction bs arbitrary: k)
  case Nil
  show ?case by simp
next
  case (Cons b bs)
  have "set (confirmed probe (Suc k) bs) \<subseteq> set bs" by (rule confirmed_subset)
  with Cons show ?case by auto
qed

lemma distinct_get_commit_branches: "distinct (get_commit_branches refs probe)"
proof (cases "\<exists>ns. refs = RefsResponse 200 (RefsValue ns)")
  case True
  then obtain ns where ns: "refs = RefsResponse 200 (RefsValue ns)" by blast
  let ?cs = "branches_to_check (head_branches ns)"
  let ?r = "probe_loop probe 0 [] ?cs"
  from probe_loop_start [of probe ?cs]
  have f: "fst ?r = confirmed probe 0 (snd ?r)" and pre: "prefix (snd ?r) ?cs" by blast+
  from pre obtain zs where "?cs = snd ?r @ zs" by (auto simp: prefix_def)
  with distinct_branches_to_check [of "head_branches ns"] have "distinct (snd ?r)"
    by (metis distinct_append)
  then have "distinct (fst ?r)" unfolding f by (rule distinct_confirmed)
  then show ?thesis
    by (simp add: ns get_commit_branches_def probes_of_refs_value Let_def)
next
  case False
  then have "get_commit_branches_probes refs probe = ([''main/master''], [])"
    by (intro probes_of_failure) blast
  then show ?thesis by (simp add: get_commit_branches_def)
qed


text \<open>
  Claim C2.  A commit of the input appears in the leaf list of each of its branches,
  under its date key and its repository, and in no other leaf list: the leaf lists that
  hold it are as many as the different names of its branch list, which is the length
  of the list when no name occurs twice, as in every list that the branch resolver
  returns.  The total of the summary, the sum of the lengths of the leaf lists, is the
  sum over the input commits of the lengths of their branch lists.
\<close>

theorem commit_in_one_leaf_per_branch:
  assumes "organize_commits_by_date_and_repo fromiso all_commits = Inr organized"
    and "c \<in> set all_commits"
  shows "\<exists>d r. date_key fromiso c = Some d \<and> repository c = Some r
           \<and> (\<forall>b\<in>set (branches_of c). c \<in> set (leaf organized d r b))
           \<and> {(d', r', b). c \<in> set (leaf organized d' r' b)} =
               (\<lambda>b. (d, r, b)) ` set (branches_of c)
           \<and> card {(d', r', b). c \<in> set (leaf organized d' r' b)} =
               card (set (branches_of c))
           \<and> (distinct (branches_of c) \<longrightarrow>
                card {(d', r', b). c \<in> set (leaf organized d' r' b)} =
                  length (branches_of c))
           \<and> (branches c = Some (get_commit_branches refs probe) \<longrightarrow>
                card {(d', r', b). c \<in> set (leaf organized d' r' b)} =
                  length (get_commit_branches refs probe))
           \<and> total_commits organized =
               sum_list (map (\<lambda>c. length (branches_of c)) all_commits)"
proof -
  from assms(1) have "\<not> isl (organize_loop fromiso [] all_commits)"
    by (simp add: organize_commits_by_date_and_repo_def)
  with assms(2) obtain d r where d: "date_key fromiso c = Some d" and r: "repository c = Some r"
    unfolding organize_loop_fails_iff by fastforce
  let ?S = "{(d', r', b). c \<in> set (leaf organized d' r' b)}"
  have S: "?S = (\<lambda>b. (d, r, b)) ` set (branches_of c)"
    using assms(2) d r by (auto simp: organize_member [OF assms(1)])
  have "inj_on (\<lambda>b. (d, r, b)) (set (branches_of c))"
    by (rule inj_onI) simp
  then have card: "card ?S = card (set (branches_of c))"
    unfolding S by (rule card_image)
  have dist: "card ?S = length (branches_of c)" if "distinct (branches_of c)"
    using that card by (simp add: distinct_card)
  have res: "card ?S = length (get_commit_branches refs probe)"
    if b: "branches c = Some (get_commit_branches refs probe)"
  proof -
    from b have "branches_of c = get_commit_branches refs probe"
      by (simp add: branches_of_def)
    with dist distinct_get_commit_branches [of refs probe] show ?thesis by simp
  qed
  have mem: "\<forall>b\<in>set (branches_of c). c \<in> set (leaf organized d r b)"
    using assms(2) d r by (simp add: organize_member [OF assms(1)])
  have "total_commits [] = 0" by (simp add: total_commits_def)
  with total_organize_loop [of fromiso "[]" all_commits organized] assms(1)
  have tot: "total_commits organized = sum_list (map (\<lambda>c. length (branches_of c)) all_commits)"
    by (simp add: organize_commits_by_date_and_repo_def)
  from d r mem S card dist res tot show ?thesis by blast
qed

theorem commit_in_one_leaf_per_branch_witness:
  "fetched_commit ''aaaa1111'' ''2024-01-02T10:00:00Z'' ''repo'' [''main'', ''dev'']
     \<in> set (leaf
         [(''2024-01-02'', [(''repo'',
            [(''main'', [fetched_commit ''aaaa1111'' ''2024-01-02T10:00:00Z'' ''repo''
                          [''main'', ''dev'']]),
             (''dev'', [fetched_commit ''aaaa1111'' ''2024-01-02T10:00:00Z'' ''repo''
                          [''main'', ''dev'']])])])]
         ''2024-01-02'' ''repo'' ''dev'')
   \<and> card {(d', r', b).
         fetched_commit ''aaaa1111'' ''2024-01-02T10:00:00Z'' ''repo'' [''main'', ''dev'']
         \<in> set (leaf
           [(''2024-01-02'', [(''repo'',
              [(''main'', [fetched_commit ''aaaa1111'' ''2024-01-02T10:00:00Z'' ''repo''
                            [''main'', ''dev'']]),
               (''dev'', [fetched_commit ''aaaa1111'' ''2024-01-02T10:00:00Z'' ''repo''
                            [''main'', ''dev'']])])])]
           d' r' b)} = 2
   \<and> total_commits
         [(''2024-01-02'', [(''repo'',
            [(''main'', [fetched_commit ''aaaa1111'' ''2024-01-02T10:00:00Z'' ''repo''
                          [''main'', ''dev'']]),
             (''dev'', [fetched_commit ''aaaa1111'' ''2024-01-02T10:00:00Z'' ''repo''
                          [''main'', ''dev'']])])])] = 2"
proof -
  let ?c = "fetched_commit ''aaaa1111'' ''2024-01-02T10:00:00Z'' ''repo'' [''main'', ''dev'']"
  let ?org = "[(''2024-01-02'', [(''repo'', [(''main'', [?c]), (''dev'', [?c])])])]"
  have o: "organize_commits_by_date_and_repo example_fromiso [?c] = Inr ?org"
    by code_simp
  have m: "?c \<in> set [?c]" by simp
  have b: "branches_of ?c = [''main'', ''dev'']"
    by (simp add: branches_of_def fetched_commit_def)
  have dk: "date_key example_fromiso ?c = Some ''2024-01-02''"
    by code_simp
  have rp: "repository ?c = Some ''repo''"
    by (simp add: fetched_commit_def)
  from commit_in_one_leaf_per_branch [OF o m, of undefined undefined]
  obtain d r where h1: "date_key example_fromiso ?c = Some d" and h2: "repository ?c = Some r"
    and h3: "\<forall>b\<in>set (branches_of ?c). ?c \<in> set (leaf ?org d r b)"
    and h4: "distinct (branches_of ?c) \<longrightarrow>
       card {(d', r', b). ?c \<in> set (leaf ?org d' r' b)} = length (branches_of ?c)"
    and h5: "total_commits ?org = sum_list (map (\<lambda>c. length (branches_of c)) [?c])"
    by blast
  from h1 dk have d: "d = ''2024-01-02''" by simp
  from h2 rp have r: "r = ''repo''" by simp
  from h3 have "?c \<in> set (leaf ?org ''2024-01-02'' ''repo'' ''dev'')"
    unfolding b d r by simp
  moreover from h4 have "card {(d', r', b). ?c \<in> set (leaf ?org d' r' b)} = 2"
    unfolding b by simp
  moreover from h5 have "total_commits ?org = 2"
    unfolding list.map b by simp
  ultimately show ?thesis by blast
qed


section \<open>URL parser\<close>

lemma replace_str_absent:
  "old \<noteq> [] \<Longrightarrow> \<not> sublist old s \<Longrightarrow> replace_str old new s = s"
proof (induction s)
  case Nil
  then show ?case by (simp add: replace_str_Nil)
next
  case (Cons c cs)
  from Cons.prems(2) have np: "\<not> prefix old (c # cs)" and ns: "\<not> sublist old cs"
    by (simp_all add: sublist_Cons_right)
  from Cons.IH [OF Cons.prems(1) ns] have "replace_str old new cs = cs" .
  with np Cons.prems(1) show ?case
    by (subst replace_str.simps) simp
qed

lemma replace_str_at_prefix:
  "old \<noteq> [] \<Longrightarrow> replace_str old new (old @ s) = new @ replace_str old new s"
  by (subst replace_str.simps) simp

lemma replace_str_skip:
  "c \<notin> set a \<Longrightarrow> replace_str (c # old) new (a @ s) = a @ replace_str (c # old) new s"
proof (induction a)
  case Nil
  show ?case by simp
next
  case (Cons x xs)
  then have "x \<noteq> c" and "c \<notin> set xs" by auto
  with Cons.IH show ?case
    by (subst replace_str.simps) simp
qed

lemma split_on_part:
  "sep \<notin> set a \<Longrightarrow> split_on sep (a @ sep # s) = a # split_on sep s"
  by (induction a) auto

lemma split_on_last: "sep \<notin> set a \<Longrightarrow> split_on sep a = [a]"
  by (induction a) auto

lemma split_on_not_Nil: "split_on sep s \<noteq> []"
  by (induction s) (auto split: list.splits)

lemma double_sep_empty_part:
  "sublist [sep, sep] s \<Longrightarrow> [] \<in> set (tl (split_on sep s))"
proof (induction s)
  case Nil
  then show ?case by simp
next
  case (Cons c cs)
  from Cons.prems consider "prefix [sep, sep] (c # cs)" | "sublist [sep, sep] cs"
    by (auto simp: sublist_Cons_right)
  then show ?case
  proof cases
    case 1
    then obtain cs' where "c = sep" "cs = sep # cs'" by (auto simp: prefix_def)
    then show ?thesis by simp
  next
    case 2
    from Cons.IH [OF 2] have ih: "[] \<in> set (tl (split_on sep cs))" .
    then have "[] \<in> set (split_on sep cs)" by (meson list.set_sel(2) split_on_not_Nil)
    with ih show ?thesis
      by (cases "split_on sep cs") (auto simp: split_on_not_Nil)
  qed
qed


lemma no_double_slash:
  assumes "a \<noteq> []" "p \<noteq> []" "r \<noteq> []"
    "CHR ''/'' \<notin> set a" "CHR ''/'' \<notin> set p" "CHR ''/'' \<notin> set r"
  shows "split_on CHR ''/'' (a @ ''/'' @ p @ ''/_git/'' @ r) = [a, p, ''_git'', r]"
    and "\<not> sublist ''//'' (a @ ''/'' @ p @ ''/_git/'' @ r)"
proof -
  have form: "a @ ''/'' @ p @ ''/_git/'' @ r =
              a @ CHR ''/'' # (p @ CHR ''/'' # (''_git'' @ CHR ''/'' # r))"
    by simp
  have g: "CHR ''/'' \<notin> set ''_git''" by simp
  show sp: "split_on CHR ''/'' (a @ ''/'' @ p @ ''/_git/'' @ r) = [a, p, ''_git'', r]"
    unfolding form
    by (simp only: split_on_part [OF assms(4)] split_on_part [OF assms(5)]
          split_on_part [OF g] split_on_last [OF assms(6)])
  show "\<not> sublist ''//'' (a @ ''/'' @ p @ ''/_git/'' @ r)"
  proof
    assume "sublist ''//'' (a @ ''/'' @ p @ ''/_git/'' @ r)"
    then have "[] \<in> set (tl (split_on CHR ''/'' (a @ ''/'' @ p @ ''/_git/'' @ r)))"
      by (rule double_sep_empty_part)
    with assms(2,3) show False unfolding sp by simp
  qed
qed

lemma parse_dev_azure:
  assumes "org \<noteq> []" "proj \<noteq> []" "repo \<noteq> []"
    "CHR ''/'' \<notin> set org" "CHR ''/'' \<notin> set proj" "CHR ''/'' \<notin> set repo"
  shows "parse_repo_url (''https://dev.azure.com/'' @ org @ ''/'' @ proj @ ''/_git/'' @ repo)
         = Inr (org, proj, repo)"
proof -
  let ?rest = "org @ ''/'' @ proj @ ''/_git/'' @ repo"
  let ?P = "''https://dev.azure.com/''"
  have "sublist ''dev.azure.com'' (''https://'' @ ''dev.azure.com'' @ (''/'' @ ?rest))"
    by (rule sublist_appendI)
  then have host: "sublist ''dev.azure.com'' (?P @ ?rest)" by simp
  have "sublist ''//'' (''https:'' @ ''//'' @ ''dev.azure.com/'')"
    by (rule sublist_appendI)
  then have dd: "sublist ''//'' ?P" by simp
  have "\<not> sublist ?P ?rest"
  proof
    assume "sublist ?P ?rest"
    with dd have "sublist ''//'' ?rest" by (rule sublist_order.order_trans)
    with no_double_slash(2) [OF assms] show False by blast
  qed
  then have r0: "replace_str ?P [] ?rest = ?rest"
    by (intro replace_str_absent) simp_all
  have "replace_str ?P [] (?P @ ?rest) = [] @ replace_str ?P [] ?rest"
    by (rule replace_str_at_prefix) simp
  also have "\<dots> = ?rest" by (simp only: r0 append_Nil)
  finally have rep: "replace_str ?P [] (?P @ ?rest) = ?rest" .
  show ?thesis
    unfolding parse_repo_url_def
    by (simp only: host if_True rep no_double_slash(1) [OF assms] Let_def)
       (simp add: py_index_def repo_name_of_def)
qed

lemma parse_visualstudio:
  assumes "org \<noteq> []" "proj \<noteq> []" "repo \<noteq> []"
    "CHR ''/'' \<notin> set org" "CHR ''/'' \<notin> set proj" "CHR ''/'' \<notin> set repo"
    "CHR ''.'' \<notin> set org"
    "\<not> sublist ''dev.azure.com''
        (''https://'' @ org @ ''.visualstudio.com/'' @ proj @ ''/_git/'' @ repo)"
  shows "parse_repo_url (''https://'' @ org @ ''.visualstudio.com/'' @ proj @ ''/_git/'' @ repo)
         = Inr (org, proj, repo)"
proof -
  let ?host = "org @ ''.visualstudio.com''"
  let ?rest = "?host @ ''/'' @ proj @ ''/_git/'' @ repo"
  let ?url = "''https://'' @ org @ ''.visualstudio.com/'' @ proj @ ''/_git/'' @ repo"
  have url: "?url = ''https://'' @ ?rest" by simp
  have "sublist ''visualstudio.com''
          ((''https://'' @ org @ ''.'') @ ''visualstudio.com'' @ (''/'' @ proj @ ''/_git/'' @ repo))"
    by (rule sublist_appendI)
  then have vs: "sublist ''visualstudio.com'' ?url" by simp
  have h1: "?host \<noteq> []" by simp
  have h2: "CHR ''/'' \<notin> set ?host" using assms(4) by simp
  note nds = no_double_slash [OF h1 assms(2,3) h2 assms(5,6)]
  have "sublist ''//'' (''https:'' @ ''//'' @ [])"
    by (rule sublist_appendI)
  then have dd: "sublist ''//'' ''https://''" by simp
  have "\<not> sublist ''https://'' ?rest"
  proof
    assume "sublist ''https://'' ?rest"
    with dd have "sublist ''//'' ?rest" by (rule sublist_order.order_trans)
    with nds(2) show False by blast
  qed
  then have r0: "replace_str ''https://'' [] ?rest = ?rest"
    by (intro replace_str_absent) simp_all
  have "replace_str ''https://'' [] (''https://'' @ ?rest) =
        [] @ replace_str ''https://'' [] ?rest"
    by (rule replace_str_at_prefix) simp
  also have "\<dots> = ?rest" by (simp only: r0 append_Nil)
  finally have rep: "replace_str ''https://'' [] (''https://'' @ ?rest) = ?rest" .
  have "replace_str ''.visualstudio.com'' [] (org @ ''.visualstudio.com'' @ []) =
        org @ replace_str ''.visualstudio.com'' [] (''.visualstudio.com'' @ [])"
    using replace_str_skip [OF assms(7), of "''visualstudio.com''" "[]" "''.visualstudio.com'' @ []"]
    by simp
  also have "replace_str ''.visualstudio.com'' [] (''.visualstudio.com'' @ []) =
             [] @ replace_str ''.visualstudio.com'' [] []"
    by (rule replace_str_at_prefix) simp
  also have "replace_str ''.visualstudio.com'' [] [] = []"
    by (rule replace_str_Nil) simp
  finally have org: "replace_str ''.visualstudio.com'' [] ?host = org" by simp
  show ?thesis
    unfolding parse_repo_url_def
    apply (simp only: assms(8) if_False vs if_True)
    apply (simp only: url rep nds(1) Let_def)
    apply (simp add: py_index_def repo_name_of_def org)
    done
qed


lemma parse_value_error_iff:
  "parse_repo_url url = Inl ValueError \<longleftrightarrow>
     \<not> sublist ''dev.azure.com'' url \<and> \<not> sublist ''visualstudio.com'' url"
  by (auto simp: parse_repo_url_def py_index_def repo_name_of_def Let_def
           split: sum.splits if_splits)

text \<open>
  Claim C1 as written fails: \<open>dev.azure.com\<close> has neither of the two shapes and
  raises \<open>IndexError\<close>, not the error of an unsupported format; and a string that has
  neither shape can be parsed, with an empty component.
\<close>

theorem parse_repo_url_shape_counterexample:
  "parse_repo_url ''dev.azure.com'' = Inl IndexError
   \<and> parse_repo_url ''http://dev.azure.com/a/b/c'' = Inr (''http:'', [], ''a'')"
  by code_simp

text \<open>
  Claim C1, amended.  Parsing fails with the error of an unsupported format exactly
  for the strings that contain neither \<open>dev.azure.com\<close> nor \<open>visualstudio.com\<close>.
  A URL \<open>https://dev.azure.com/{organization}/{project}/_git/{repository}\<close> whose three
  components are not empty and hold no slash is parsed into these three components;
  so is \<open>https://{organization}.visualstudio.com/{project}/_git/{repository}\<close> when
  moreover the organization holds no dot and \<open>dev.azure.com\<close> does not occur in the
  URL.
\<close>

theorem parse_repo_url_shapes:
  "(parse_repo_url url = Inl ValueError \<longleftrightarrow>
      \<not> sublist ''dev.azure.com'' url \<and> \<not> sublist ''visualstudio.com'' url)
   \<and> (org \<noteq> [] \<and> proj \<noteq> [] \<and> repo \<noteq> []
        \<and> CHR ''/'' \<notin> set org \<and> CHR ''/'' \<notin> set proj \<and> CHR ''/'' \<notin> set repo \<longrightarrow>
        parse_repo_url (''https://dev.azure.com/'' @ org @ ''/'' @ proj @ ''/_git/'' @ repo)
          = Inr (org, proj, repo))
   \<and> (org \<noteq> [] \<and> proj \<noteq> [] \<and> repo \<noteq> []
        \<and> CHR ''/'' \<notin> set org \<and> CHR ''/'' \<notin> set proj \<and> CHR ''/'' \<notin> set repo
        \<and> CHR ''.'' \<notin> set org
        \<and> \<not> sublist ''dev.azure.com''
              (''https://'' @ org @ ''.visualstudio.com/'' @ proj @ ''/_git/'' @ repo) \<longrightarrow>
        parse_repo_url (''https://'' @ org @ ''.visualstudio.com/'' @ proj @ ''/_git/'' @ repo)
          = Inr (org, proj, repo))"
  using parse_value_error_iff [of url] parse_dev_azure [of org proj repo]
    parse_visualstudio [of org proj repo]
  by blast

theorem parse_repo_url_shapes_witness:
  "parse_repo_url ''ftp://example.org/repo'' = Inl ValueError
   \<and> parse_repo_url ''https://dev.azure.com/contoso/web/_git/shop''
       = Inr (''contoso'', ''web'', ''shop'')
   \<and> parse_repo_url ''https://contoso.visualstudio.com/web/_git/shop''
       = Inr (''contoso'', ''web'', ''shop'')"
proof -
  have n: "\<not> sublist ''dev.azure.com'' ''ftp://example.org/repo''
           \<and> \<not> sublist ''visualstudio.com'' ''ftp://example.org/repo''"
    by code_simp
  have v: "\<not> sublist ''dev.azure.com''
             (''https://'' @ ''contoso'' @ ''.visualstudio.com/'' @ ''web'' @ ''/_git/'' @ ''shop'')"
    by code_simp
  from parse_repo_url_shapes [of "''ftp://example.org/repo''" "''contoso''" "''web''" "''shop''"]
    n v
  show ?thesis by simp
qed


section \<open>Report renderer\<close>









lemma sort_strict: "distinct ks \<Longrightarrow> sorted_wrt (<) (sort ks)"
  by (simp add: strict_sorted_iff)





























end
